theory Spec2Isabelle
  imports Complex_Main "HOL-Library.Word" "HOL-Library.Char_ord" "HOL-Library.Log_Nat"
begin

section \<open>Core types (core/types.hpp, binance/types.hpp, core/messages.hpp)\<close>

text \<open>
  \<open>SequenceId\<close> and \<open>TradeId\<close> are \<open>std::uint64_t\<close>: 64-bit words, on which \<open>+\<close> wraps
  and \<open>\<le>\<close> is the unsigned order. A \<open>FixedPrice\<close> is a \<open>FixedPoint<8>\<close>; its only member is
  the \<open>int64_t\<close> raw value, and its comparison operators are those of the raw value, so a
  price is modelled by its raw value. \<open>Price\<close> and \<open>Quantity\<close> are \<open>double\<close>; they are
  modelled as real numbers (rounding, infinities and NaN are outside the model).
\<close>

type_synonym SequenceId = "64 word"
type_synonym TradeId = "64 word"
type_synonym FixedPrice = int
type_synonym Price = real
type_synonym Quantity = real
type_synonym PriceLevel = "FixedPrice \<times> Quantity"

record DepthUpdate =
  event_type :: string
  event_time :: "64 word"
  transaction_time :: "64 word"
  symbol :: string
  first_update_id :: SequenceId
  final_update_id :: SequenceId
  prev_final_update_id :: SequenceId
  bids :: "PriceLevel list"
  asks :: "PriceLevel list"

record AggTrade =
  agg_trade_id :: TradeId
  price :: Price
  quantity :: Quantity
  first_trade_id :: TradeId
  last_trade_id :: TradeId
  trade_time :: "64 word"
  is_buyer_maker :: bool

record DepthSnapshot =
  last_update_id :: SequenceId
  snapshot_symbol :: string
  snapshot_bids :: "PriceLevel list"
  snapshot_asks :: "PriceLevel list"

text \<open>The \<open>EngineMessage\<close> variant. The receive timestamps are wall-clock readings and are
  left out.\<close>

datatype EngineMessage =
    DepthUpdateMsg DepthUpdate
  | AggTradeMsg AggTrade
  | SnapshotMsg DepthSnapshot
  | ConnectionLost string
  | ConnectionRestored
  | SequenceGap SequenceId SequenceId
  | Shutdown

section \<open>Order book (orderbook/price_level.hpp, orderbook/order_book.cpp)\<close>

text \<open>
  \<open>BidSide\<close> is \<open>std::map<FixedPrice, Quantity, std::greater<FixedPrice>>\<close> and \<open>AskSide\<close> is
  \<open>std::map<FixedPrice, Quantity>\<close>. A \<open>std::map\<close> is modelled by the list of its entries in
  iteration order, that is, sorted by the map's comparator \<open>lt\<close>; two keys are the same
  entry when neither is \<open>lt\<close> the other.
\<close>

fun map_assign :: "('k \<Rightarrow> 'k \<Rightarrow> bool) \<Rightarrow> 'k \<Rightarrow> 'v \<Rightarrow> ('k \<times> 'v) list \<Rightarrow> ('k \<times> 'v) list" where
  "map_assign lt k v [] = [(k, v)]"
| "map_assign lt k v ((k', v') # xs) =
     (if lt k k' then (k, v) # (k', v') # xs
      else if lt k' k then (k', v') # map_assign lt k v xs
      else (k', v) # xs)"

fun map_find :: "('k \<Rightarrow> 'k \<Rightarrow> bool) \<Rightarrow> 'k \<Rightarrow> ('k \<times> 'v) list \<Rightarrow> 'v option" where
  "map_find lt k [] = None"
| "map_find lt k ((k', v') # xs) =
     (if lt k k' then None
      else if lt k' k then map_find lt k xs
      else Some v')"

fun map_erase :: "('k \<Rightarrow> 'k \<Rightarrow> bool) \<Rightarrow> 'k \<Rightarrow> ('k \<times> 'v) list \<Rightarrow> ('k \<times> 'v) list" where
  "map_erase lt k [] = []"
| "map_erase lt k ((k', v') # xs) =
     (if lt k k' then (k', v') # xs
      else if lt k' k then (k', v') # map_erase lt k xs
      else xs)"

definition bid_lt :: "FixedPrice \<Rightarrow> FixedPrice \<Rightarrow> bool" where
  "bid_lt a b = (a > b)"

definition ask_lt :: "FixedPrice \<Rightarrow> FixedPrice \<Rightarrow> bool" where
  "ask_lt a b = (a < b)"

text \<open>The book's data members. The cached best-level iterators and their validity flags
  only serve \<open>build_snapshot\<close> and are not part of the model.\<close>

record OrderBook =
  book_bids :: "(FixedPrice \<times> Quantity) list"
  book_asks :: "(FixedPrice \<times> Quantity) list"
  book_last_update_id :: SequenceId
  imbalance_levels :: nat

definition OrderBook_init :: "nat \<Rightarrow> OrderBook" where
  "OrderBook_init n =
     \<lparr>book_bids = [], book_asks = [], book_last_update_id = 0, imbalance_levels = n\<rparr>"

definition snapshot_level ::
  "(FixedPrice \<Rightarrow> FixedPrice \<Rightarrow> bool) \<Rightarrow> (FixedPrice \<times> Quantity) list \<Rightarrow> PriceLevel
     \<Rightarrow> (FixedPrice \<times> Quantity) list" where
  "snapshot_level lt side lv = (if snd lv > 0 then map_assign lt (fst lv) (snd lv) side else side)"

definition ob_apply_snapshot :: "DepthSnapshot \<Rightarrow> OrderBook \<Rightarrow> OrderBook" where
  "ob_apply_snapshot snapshot book =
     book\<lparr>book_bids := foldl (snapshot_level bid_lt) [] (snapshot_bids snapshot),
          book_asks := foldl (snapshot_level ask_lt) [] (snapshot_asks snapshot),
          book_last_update_id := last_update_id snapshot\<rparr>"

definition apply_side_update ::
  "(FixedPrice \<Rightarrow> FixedPrice \<Rightarrow> bool) \<Rightarrow> (FixedPrice \<times> Quantity) list \<Rightarrow> PriceLevel
     \<Rightarrow> (FixedPrice \<times> Quantity) list" where
  "apply_side_update lt side lv =
     (if snd lv > 0 then map_assign lt (fst lv) (snd lv) side
      else (case map_find lt (fst lv) side of
              Some q \<Rightarrow> map_erase lt (fst lv) side
            | None \<Rightarrow> side))"

definition apply_bid_update :: "FixedPrice \<Rightarrow> Quantity \<Rightarrow> OrderBook \<Rightarrow> OrderBook" where
  "apply_bid_update p qty book =
     book\<lparr>book_bids := apply_side_update bid_lt (book_bids book) (p, qty)\<rparr>"

definition apply_ask_update :: "FixedPrice \<Rightarrow> Quantity \<Rightarrow> OrderBook \<Rightarrow> OrderBook" where
  "apply_ask_update p qty book =
     book\<lparr>book_asks := apply_side_update ask_lt (book_asks book) (p, qty)\<rparr>"

definition ob_apply_update :: "DepthUpdate \<Rightarrow> OrderBook \<Rightarrow> OrderBook" where
  "ob_apply_update update book =
     (let b1 = foldl (\<lambda>b lv. apply_bid_update (fst lv) (snd lv) b) book (bids update);
          b2 = foldl (\<lambda>b lv. apply_ask_update (fst lv) (snd lv) b) b1 (asks update)
      in b2\<lparr>book_last_update_id := final_update_id update\<rparr>)"

definition has_sequence_gap :: "OrderBook \<Rightarrow> SequenceId \<Rightarrow> SequenceId \<Rightarrow> bool" where
  "has_sequence_gap book first_id prev_final_id = (prev_final_id \<noteq> book_last_update_id book)"

definition ob_clear :: "OrderBook \<Rightarrow> OrderBook" where
  "ob_clear book = book\<lparr>book_bids := [], book_asks := [], book_last_update_id := 0\<rparr>"



section \<open>Feed handler (binance/feed_state.hpp, binance/feed_handler.cpp)\<close>

datatype FeedState = Disconnected | Connecting | WaitingSnapshot | Syncing | Live | Reconnecting

text \<open>
  The handler's state as far as the snapshot path reads or writes it. \<open>emitted\<close> is the
  sequence of messages handed to \<open>on_message_\<close>, oldest first; \<open>snapshot_fetches\<close> counts
  the REST requests issued by \<open>fetch_snapshot\<close>; \<open>reconnects_scheduled\<close> counts the calls of
  \<open>schedule_reconnect\<close> (its timer and random delay are not modelled).
\<close>

record FeedHandler =
  fh_state :: FeedState
  buffered_updates :: "DepthUpdate list"
  snapshot_requested :: bool
  emitted :: "EngineMessage list"
  snapshot_fetches :: nat
  reconnects_scheduled :: nat

definition set_state :: "FeedState \<Rightarrow> FeedHandler \<Rightarrow> FeedHandler" where
  "set_state new_state h = h\<lparr>fh_state := new_state\<rparr>"

definition emit_message :: "EngineMessage \<Rightarrow> FeedHandler \<Rightarrow> FeedHandler" where
  "emit_message msg h = h\<lparr>emitted := emitted h @ [msg]\<rparr>"

definition fetch_snapshot :: "FeedHandler \<Rightarrow> FeedHandler" where
  "fetch_snapshot h = h\<lparr>snapshot_requested := True, snapshot_fetches := Suc (snapshot_fetches h)\<rparr>"

definition request_snapshot :: "FeedHandler \<Rightarrow> FeedHandler" where
  "request_snapshot h =
     (if snapshot_requested h then h
      else fetch_snapshot ((set_state WaitingSnapshot h)\<lparr>buffered_updates := []\<rparr>))"

definition schedule_reconnect :: "FeedHandler \<Rightarrow> FeedHandler" where
  "schedule_reconnect h =
     (set_state Reconnecting h)\<lparr>reconnects_scheduled := Suc (reconnects_scheduled h)\<rparr>"

definition process_depth_update :: "DepthUpdate \<Rightarrow> FeedHandler \<Rightarrow> FeedHandler" where
  "process_depth_update update h =
     (if fh_state h = WaitingSnapshot then h\<lparr>buffered_updates := buffered_updates h @ [update]\<rparr>
      else if fh_state h = Live then emit_message (DepthUpdateMsg update) h
      else h)"

text \<open>
  The replay loop of \<open>FeedHandler::apply_snapshot\<close> over \<open>buffered_updates_\<close>. The
  accumulator is \<open>found_first_valid\<close> and the handler; \<open>Inl\<close> is the early \<open>return\<close>
  after \<open>request_snapshot()\<close>.
\<close>

fun replay_buffered ::
  "DepthSnapshot \<Rightarrow> DepthUpdate list \<Rightarrow> bool \<Rightarrow> FeedHandler \<Rightarrow> FeedHandler + (bool \<times> FeedHandler)" where
  "replay_buffered snapshot [] found h = Inr (found, h)"
| "replay_buffered snapshot (update # rest) found h =
     (if \<not> found then
        (if first_update_id update \<le> last_update_id snapshot + 1 \<and>
            final_update_id update \<ge> last_update_id snapshot + 1
         then replay_buffered snapshot rest True (emit_message (DepthUpdateMsg update) h)
         else if final_update_id update \<le> last_update_id snapshot
         then replay_buffered snapshot rest False h
         else Inl (request_snapshot h))
      else replay_buffered snapshot rest True (emit_message (DepthUpdateMsg update) h))"

definition fh_apply_snapshot :: "DepthSnapshot \<Rightarrow> FeedHandler \<Rightarrow> FeedHandler" where
  "fh_apply_snapshot snapshot h =
     (let h1 = set_state Syncing h;
          h2 = emit_message (SnapshotMsg snapshot) h1
      in case replay_buffered snapshot (buffered_updates h2) False h2 of
           Inl h3 \<Rightarrow> h3
         | Inr (found, h3) \<Rightarrow>
             (let h4 = h3\<lparr>buffered_updates := []\<rparr>
              in if \<not> found \<and> buffered_updates h4 \<noteq> [] then request_snapshot h4
                 else set_state Live h4))"

text \<open>
  \<open>on_snapshot_response\<close> receives the REST result (\<open>Inl\<close> an error text, \<open>Inr\<close> the body);
  the JSON decoder \<open>MessageParser::parse_depth_snapshot\<close> is a parameter.
\<close>

definition on_snapshot_response ::
  "(string \<Rightarrow> string + DepthSnapshot) \<Rightarrow> string + string \<Rightarrow> FeedHandler \<Rightarrow> FeedHandler" where
  "on_snapshot_response parse_depth_snapshot result h =
     (let h0 = h\<lparr>snapshot_requested := False\<rparr>
      in case result of
           Inl err \<Rightarrow> schedule_reconnect h0
         | Inr body \<Rightarrow>
             (case parse_depth_snapshot body of
                Inl err \<Rightarrow> schedule_reconnect h0
              | Inr snapshot \<Rightarrow> fh_apply_snapshot snapshot h0))"

section \<open>Compute core (engine/market_data_engine.cpp)\<close>

text \<open>The engine's \<open>SyncState::WaitingSnapshot\<close> is written \<open>AwaitingSnapshot\<close> here, the
  name \<open>WaitingSnapshot\<close> being the feed handler's state.\<close>

datatype SyncState = Initializing | AwaitingSnapshot | Synced

record Engine =
  sync_state :: SyncState
  last_processed_id :: SequenceId
  order_book :: OrderBook
  feed_handler :: FeedHandler

definition handle_depth_update :: "DepthUpdate \<Rightarrow> Engine \<Rightarrow> Engine" where
  "handle_depth_update update e =
     (if sync_state e \<noteq> Synced then e
      else if last_processed_id e > 0 \<and>
              has_sequence_gap (order_book e) (first_update_id update) (prev_final_update_id update)
      then e\<lparr>sync_state := AwaitingSnapshot,
             order_book := ob_clear (order_book e),
             feed_handler := request_snapshot (feed_handler e)\<rparr>
      else e\<lparr>order_book := ob_apply_update update (order_book e),
             last_processed_id := final_update_id update\<rparr>)"

definition handle_snapshot :: "DepthSnapshot \<Rightarrow> Engine \<Rightarrow> Engine" where
  "handle_snapshot snapshot e =
     e\<lparr>order_book := ob_apply_snapshot snapshot (order_book e),
       last_processed_id := last_update_id snapshot,
       sync_state := Synced\<rparr>"

section \<open>Fixed-point decimals (core/fixed_point.hpp)\<close>

text \<open>
  A \<open>FixedPoint<Decimals>\<close> holds one \<open>int64_t\<close>. Values of that type are integers between
  \<open>- 2 ^ 63\<close> and \<open>2 ^ 63 - 1\<close>; the result of every \<open>int64_t\<close> operation is reduced by
  \<open>wrap64\<close>, the two's complement wrap-around. The template parameter \<open>Decimals\<close> (between
  0 and 18 by the \<open>static_assert\<close>) is the first argument of the functions below, and it is
  8 for \<open>FixedPrice\<close>.
\<close>

definition INT64_MAX :: int where
  "INT64_MAX = 9223372036854775807"

definition wrap64 :: "int \<Rightarrow> int" where
  "wrap64 x = (x + 9223372036854775808) mod 18446744073709551616 - 9223372036854775808"

definition scale :: "nat \<Rightarrow> int" where
  "scale decimals = 10 ^ decimals"

datatype exception = invalid_argument string | overflow_error string

record parse_vars =
  integer_part :: int
  frac_part :: int
  frac_digits :: nat
  in_fraction :: bool
  has_digits :: bool

definition max_safe_int :: int where
  "max_safe_int = INT64_MAX div 10"

text \<open>The \<open>for\<close> loop of \<open>parse\<close> over the characters from \<open>pos\<close> on. \<open>Inl\<close> is a
  \<open>throw\<close>.\<close>

fun parse_loop :: "nat \<Rightarrow> string \<Rightarrow> parse_vars \<Rightarrow> exception + parse_vars" where
  "parse_loop decimals [] v = Inr v"
| "parse_loop decimals (c # cs) v =
     (if c = CHR ''.'' then
        (if in_fraction v then Inl (invalid_argument ''Multiple decimal points'')
         else parse_loop decimals cs (v\<lparr>in_fraction := True\<rparr>))
      else if c < CHR ''0'' \<or> c > CHR ''9'' then
        Inl (invalid_argument ''Invalid character in number'')
      else
        (let digit = int (of_char c) - int (of_char CHR ''0'');
             v1 = v\<lparr>has_digits := True\<rparr>
         in if in_fraction v1 then
              (if frac_digits v1 < decimals then
                 parse_loop decimals cs
                   (v1\<lparr>frac_part := wrap64 (wrap64 (frac_part v1 * 10) + digit),
                       frac_digits := Suc (frac_digits v1)\<rparr>)
               else parse_loop decimals cs v1)
            else if integer_part v1 > max_safe_int then
              Inl (overflow_error ''Integer part overflow during parse'')
            else
              parse_loop decimals cs
                (v1\<lparr>integer_part := wrap64 (wrap64 (integer_part v1 * 10) + digit)\<rparr>)))"

text \<open>The \<open>while (frac_digits < Decimals)\<close> loop, by the number of rounds left.\<close>

fun scale_frac :: "nat \<Rightarrow> int \<Rightarrow> int" where
  "scale_frac 0 f = f"
| "scale_frac (Suc n) f = scale_frac n (wrap64 (f * 10))"

definition parse :: "nat \<Rightarrow> string \<Rightarrow> exception + int" where
  "parse decimals str =
     (if str = [] then Inr 0
      else
        (let negative = (hd str = CHR ''-'');
             pos = (if hd str = CHR ''-'' \<or> hd str = CHR ''+'' then 1 else 0 :: nat)
         in if pos \<ge> length str then Inl (invalid_argument ''Invalid number format: sign only'')
            else
              (case parse_loop decimals (drop pos str)
                      \<lparr>integer_part = 0, frac_part = 0, frac_digits = 0,
                       in_fraction = False, has_digits = False\<rparr> of
                 Inl e \<Rightarrow> Inl e
               | Inr v \<Rightarrow>
                   if \<not> has_digits v then Inl (invalid_argument ''No digits found in number'')
                   else
                     (let frac = scale_frac (decimals - frac_digits v) (frac_part v)
                      in if integer_part v > INT64_MAX div scale decimals
                         then Inl (overflow_error ''Value too large for fixed-point representation'')
                         else
                           (let result = wrap64 (wrap64 (integer_part v * scale decimals) + frac)
                            in Inr (if negative then wrap64 (- result) else result))))))"


section \<open>Rolling VWAP (trade/vwap_calculator.cpp)\<close>

text \<open>
  The private \<open>struct Trade {price, quantity}\<close> is a pair. \<open>trades_\<close> is a \<open>std::deque\<close>
  whose front is the head of the list. The members keep their names without the trailing
  underscore; \<open>count_\<close> is \<open>entries\<close>.
\<close>

type_synonym Trade = "Price \<times> Quantity"

record VwapCalculator =
  trades :: "Trade list"
  window_size :: nat
  sum_pv :: real
  sum_v :: real
  mean :: real
  m2 :: real
  entries :: nat

definition VwapCalculator_init :: "nat \<Rightarrow> VwapCalculator" where
  "VwapCalculator_init w =
     \<lparr>trades = [], window_size = w, sum_pv = 0, sum_v = 0, mean = 0, m2 = 0, entries = 0\<rparr>"

definition vwap :: "VwapCalculator \<Rightarrow> real" where
  "vwap c = (if sum_v c \<le> 0 then 0 else sum_pv c / sum_v c)"

definition trade_count :: "VwapCalculator \<Rightarrow> nat" where
  "trade_count c = length (trades c)"

definition rolling_avg_size :: "VwapCalculator \<Rightarrow> real" where
  "rolling_avg_size c = (if entries c = 0 then 0 else mean c)"

definition rolling_std_dev :: "VwapCalculator \<Rightarrow> real" where
  "rolling_std_dev c = (if entries c < 2 then 0 else sqrt (m2 c / real (entries c)))"

text \<open>The first half of \<open>add_trade\<close>: append, update the sums, Welford's update.\<close>

definition push_trade :: "Price \<Rightarrow> Quantity \<Rightarrow> VwapCalculator \<Rightarrow> VwapCalculator" where
  "push_trade p q c =
     (let n = Suc (entries c);
          delta = q - mean c;
          mean1 = mean c + delta / real n;
          delta2 = q - mean1
      in c\<lparr>trades := trades c @ [(p, q)],
           sum_pv := sum_pv c + p * q,
           sum_v := sum_v c + q,
           entries := n,
           mean := mean1,
           m2 := m2 c + delta * delta2\<rparr>)"

text \<open>The second half: when the window is exceeded the front trade is removed. The branch
  is only taken with a non-empty deque, so \<open>front()\<close> is defined there.\<close>

definition evict_oldest :: "VwapCalculator \<Rightarrow> VwapCalculator" where
  "evict_oldest c =
     (case trades c of
        [] \<Rightarrow> c
      | old_trade # remaining \<Rightarrow>
          (let old_qty = snd old_trade;
               old_delta = old_qty - mean c;
               n = entries c - 1;
               c1 = c\<lparr>sum_pv := sum_pv c - fst old_trade * snd old_trade,
                      sum_v := sum_v c - snd old_trade,
                      entries := n\<rparr>;
               c2 = (if n > 0 then
                       (let mean1 = (mean c * (real n + 1) - old_qty) / real n;
                            old_delta2 = old_qty - mean1;
                            m = m2 c - old_delta * old_delta2
                        in c1\<lparr>mean := mean1, m2 := (if m < 0 then 0 else m)\<rparr>)
                     else c1\<lparr>mean := 0, m2 := 0\<rparr>)
           in c2\<lparr>trades := remaining\<rparr>))"

text \<open>\<open>add_trade\<close> returns \<open>vwap()\<close> of the state it leaves; the model returns that state.\<close>

definition add_trade :: "Price \<Rightarrow> Quantity \<Rightarrow> VwapCalculator \<Rightarrow> VwapCalculator" where
  "add_trade p q c =
     (let c1 = push_trade p q c
      in if length (trades c1) > window_size c1 then evict_oldest c1 else c1)"

definition vwap_clear :: "VwapCalculator \<Rightarrow> VwapCalculator" where
  "vwap_clear c = c\<lparr>trades := [], sum_pv := 0, sum_v := 0, mean := 0, m2 := 0, entries := 0\<rparr>"

definition add_trades :: "Trade list \<Rightarrow> VwapCalculator \<Rightarrow> VwapCalculator" where
  "add_trades ts c = foldl (\<lambda>c t. add_trade (fst t) (snd t) c) c ts"

section \<open>Alert detector and trade flow (trade/alert_detector.cpp, trade/trade_flow.cpp)\<close>

datatype TradeAlert =
  TradeAlert (alert_price: Price) (alert_quantity: Quantity) (is_buy: bool) (deviation: real)

definition check_trade :: "real \<Rightarrow> Price \<Rightarrow> Quantity \<Rightarrow> bool \<Rightarrow> real \<Rightarrow> real \<Rightarrow> TradeAlert option" where
  "check_trade threshold p q buy rolling_avg rolling_sd =
     (if rolling_sd \<le> 0 then None
      else (let dev = (q - rolling_avg) / rolling_sd
            in if dev > threshold then Some (TradeAlert p q buy dev) else None))"

record TradeFlowMetrics =
  metrics_vwap :: real
  total_buy_volume :: Quantity
  total_sell_volume :: Quantity
  net_flow :: real
  metrics_trade_count :: nat
  last_alert :: "TradeAlert option"

text \<open>The members of \<open>TradeFlow\<close>: \<open>vwap_\<close>, the threshold of \<open>alert_detector_\<close>,
  \<open>total_buy_volume_\<close>, \<open>total_sell_volume_\<close> and \<open>last_alert_\<close>.\<close>

record TradeFlow =
  flow_vwap :: VwapCalculator
  flow_threshold :: real
  flow_buy_volume :: Quantity
  flow_sell_volume :: Quantity
  flow_last_alert :: "TradeAlert option"

definition TradeFlow_init :: "nat \<Rightarrow> real \<Rightarrow> TradeFlow" where
  "TradeFlow_init vwap_window large_trade_std_devs =
     \<lparr>flow_vwap = VwapCalculator_init vwap_window, flow_threshold = large_trade_std_devs,
      flow_buy_volume = 0, flow_sell_volume = 0, flow_last_alert = None\<rparr>"

definition current_metrics :: "TradeFlow \<Rightarrow> TradeFlowMetrics" where
  "current_metrics f =
     \<lparr>metrics_vwap = vwap (flow_vwap f),
      total_buy_volume = flow_buy_volume f,
      total_sell_volume = flow_sell_volume f,
      net_flow = flow_buy_volume f - flow_sell_volume f,
      metrics_trade_count = trade_count (flow_vwap f),
      last_alert = flow_last_alert f\<rparr>"

text \<open>\<open>process_trade\<close> returns \<open>current_metrics()\<close> of the state it leaves; the model
  returns that state.\<close>

definition process_trade :: "AggTrade \<Rightarrow> TradeFlow \<Rightarrow> TradeFlow" where
  "process_trade trade f =
     (let v = add_trade (price trade) (quantity trade) (flow_vwap f);
          buy = \<not> is_buyer_maker trade;
          alert = check_trade (flow_threshold f) (price trade) (quantity trade) buy
                    (rolling_avg_size v) (rolling_std_dev v)
      in f\<lparr>flow_vwap := v,
           flow_buy_volume := (if buy then flow_buy_volume f + quantity trade else flow_buy_volume f),
           flow_sell_volume := (if buy then flow_sell_volume f else flow_sell_volume f + quantity trade),
           flow_last_alert := (case alert of Some a \<Rightarrow> Some a | None \<Rightarrow> flow_last_alert f)\<rparr>)"

definition flow_reset :: "TradeFlow \<Rightarrow> TradeFlow" where
  "flow_reset f =
     f\<lparr>flow_vwap := vwap_clear (flow_vwap f), flow_buy_volume := 0, flow_sell_volume := 0,
       flow_last_alert := None\<rparr>"

definition process_trades :: "AggTrade list \<Rightarrow> TradeFlow \<Rightarrow> TradeFlow" where
  "process_trades ts f = foldl (\<lambda>f t. process_trade t f) f ts"

definition mk_trade :: "Price \<Rightarrow> Quantity \<Rightarrow> bool \<Rightarrow> AggTrade" where
  "mk_trade p q maker =
     \<lparr>agg_trade_id = 1, price = p, quantity = q, first_trade_id = 1, last_trade_id = 1,
      trade_time = 0, is_buyer_maker = maker\<rparr>"

text \<open>The invariant of the rolling window after the trades \<open>ts\<close>: the deque holds the
  last \<open>window_size\<close> of them and the two sums are the sums over the deque.\<close>

definition window_inv :: "Trade list \<Rightarrow> VwapCalculator \<Rightarrow> bool" where
  "window_inv ts c \<longleftrightarrow>
     trades c = drop (length ts - window_size c) ts \<and>
     sum_pv c = (\<Sum>t\<leftarrow>trades c. fst t * snd t) \<and>
     sum_v c = (\<Sum>t\<leftarrow>trades c. snd t)"

section \<open>Broadcast fan-out (output/websocket_server.cpp)\<close>











section \<open>SPSC ring (queue/spsc_queue.hpp)\<close>

text \<open>
  \<open>std::size_t\<close> is a 64-bit word. A slot is its \<open>sequence\<close> and its \<open>storage\<close>, which
  holds a live object (\<open>Some\<close>) between the placement \<open>new\<close> of \<open>try_push\<close> and the
  destructor call of \<open>try_pop\<close>. The template parameter \<open>Capacity\<close> is the length of
  \<open>slots\<close>. Each call runs to its end on the state it finds: the atomics' memory orders
  and the interleaving of two threads inside a call are not modelled.
\<close>

record 'a Slot =
  sequence :: "64 word"
  storage :: "'a option"

record 'a SpscQueue =
  head :: "64 word"
  tail :: "64 word"
  slots :: "'a Slot list"

definition capacity :: "'a SpscQueue \<Rightarrow> nat" where
  "capacity q = length (slots q)"

definition kMask :: "'a SpscQueue \<Rightarrow> 64 word" where
  "kMask q = of_nat (capacity q - 1)"

definition SpscQueue_init :: "nat \<Rightarrow> 'a SpscQueue" where
  "SpscQueue_init n =
     \<lparr>head = 0, tail = 0,
      slots = map (\<lambda>i. \<lparr>sequence = of_nat i, storage = None\<rparr>) [0..<n]\<rparr>"

definition try_push :: "'a \<Rightarrow> 'a SpscQueue \<Rightarrow> bool \<times> 'a SpscQueue" where
  "try_push v q =
     (let pos = tail q;
          i = unat (and pos (kMask q));
          seq = sequence (slots q ! i)
      in if seq \<noteq> pos then (False, q)
         else (True, q\<lparr>slots := (slots q)[i := \<lparr>sequence = pos + 1, storage = Some v\<rparr>],
                      tail := pos + 1\<rparr>))"

definition try_pop :: "'a SpscQueue \<Rightarrow> 'a option \<times> 'a SpscQueue" where
  "try_pop q =
     (let pos = head q;
          i = unat (and pos (kMask q));
          seq = sequence (slots q ! i)
      in if seq \<noteq> pos + 1 then (None, q)
         else (storage (slots q ! i),
               q\<lparr>slots := (slots q)[i := \<lparr>sequence = pos + of_nat (capacity q), storage = None\<rparr>],
                 head := pos + 1\<rparr>))"

text \<open>A run of the queue: the operations in the order in which they take effect, and what
  each returned.\<close>

datatype 'a QueueOp = Push 'a | Pop

datatype 'a QueueResult = Pushed bool | Popped "'a option"

fun queue_run :: "'a QueueOp list \<Rightarrow> 'a SpscQueue \<Rightarrow> 'a QueueResult list" where
  "queue_run [] q = []"
| "queue_run (Push v # ops) q = (case try_push v q of (ok, q') \<Rightarrow> Pushed ok # queue_run ops q')"
| "queue_run (Pop # ops) q = (case try_pop q of (r, q') \<Rightarrow> Popped r # queue_run ops q')"

text \<open>The bounded FIFO of the specification, on the list of stored elements.\<close>

fun fifo_run :: "nat \<Rightarrow> 'a QueueOp list \<Rightarrow> 'a list \<Rightarrow> 'a QueueResult list" where
  "fifo_run n [] xs = []"
| "fifo_run n (Push v # ops) xs =
     (if length xs < n then Pushed True # fifo_run n ops (xs @ [v])
      else Pushed False # fifo_run n ops xs)"
| "fifo_run n (Pop # ops) xs =
     (case xs of [] \<Rightarrow> Popped None # fifo_run n ops []
      | x # rest \<Rightarrow> Popped (Some x) # fifo_run n ops rest)"

text \<open>
  The ring of capacity \<open>2 ^ m\<close> represents the FIFO contents \<open>xs\<close>: with \<open>h\<close> the number of
  elements popped so far, the slot of position \<open>h + k\<close> holds element \<open>k\<close> with sequence
  \<open>h + k + 1\<close> when \<open>k < length xs\<close>, and is free with sequence \<open>h + k\<close> otherwise.
\<close>

definition ring_slot :: "nat \<Rightarrow> 'a list \<Rightarrow> nat \<Rightarrow> 'a Slot" where
  "ring_slot h xs k =
     (if k < length xs then \<lparr>sequence = of_nat (h + k + 1), storage = Some (xs ! k)\<rparr>
      else \<lparr>sequence = of_nat (h + k), storage = None\<rparr>)"

definition represents :: "nat \<Rightarrow> 'a SpscQueue \<Rightarrow> nat \<Rightarrow> 'a list \<Rightarrow> bool" where
  "represents m q h xs \<longleftrightarrow>
     length (slots q) = 2 ^ m \<and> length xs \<le> 2 ^ m \<and>
     head q = of_nat h \<and> tail q = of_nat (h + length xs) \<and>
     (\<forall>k < 2 ^ m. slots q ! ((h + k) mod 2 ^ m) = ring_slot h xs k)"


section \<open>Fixed-point multiplication and division (core/fixed_point.hpp)\<close>

text \<open>
  \<open>detail::mul_div\<close> and \<open>detail::mul_scale\<close> compute in \<open>double\<close>. A finite \<open>double\<close> is
  modelled by the rational number it denotes, and every conversion and operation rounds
  its exact result to the nearest number with a 53-bit significand, ties to the even
  significand (IEEE 754 binary64, round-to-nearest-even). The exponent range is not
  limited: the magnitudes that arise from two 64-bit integers and a scale of at most
  \<open>10 ^ 18\<close> lie far inside it. \<open>binary_exponent x\<close> is \<open>\<lfloor>log\<^sub>2 \<bar>x\<bar>\<rfloor>\<close>.
\<close>

definition round_half_even :: "rat \<Rightarrow> int" where
  "round_half_even y =
     (let f = \<lfloor>y\<rfloor>
      in if y - of_int f < 1 / 2 then f
         else if y - of_int f > 1 / 2 then f + 1
         else if even f then f else f + 1)"

definition binary_exponent :: "rat \<Rightarrow> int" where
  "binary_exponent x =
     (let t = bitlen (fst (quotient_of \<bar>x\<bar>)) - bitlen (snd (quotient_of \<bar>x\<bar>))
      in if 2 powi t \<le> \<bar>x\<bar> then t else t - 1)"

definition round_to_double :: "rat \<Rightarrow> rat" where
  "round_to_double x =
     (if x = 0 then 0
      else (let e = binary_exponent x - 52
            in of_int (round_half_even (x / 2 powi e)) * 2 powi e))"

text \<open>\<open>std::round\<close>: to the nearest integer, halfway cases away from zero.\<close>

definition std_round :: "rat \<Rightarrow> int" where
  "std_round x = (if x \<ge> 0 then \<lfloor>x + 1 / 2\<rfloor> else - \<lfloor>- x + 1 / 2\<rfloor>)"

text \<open>\<open>static_cast<std::int64_t>\<close> of a \<open>double\<close> with an integral value: undefined
  (\<open>None\<close>) when the value is not an \<open>int64_t\<close>.\<close>

definition to_int64 :: "int \<Rightarrow> int option" where
  "to_int64 r = (if - 9223372036854775808 \<le> r \<and> r \<le> INT64_MAX then Some r else None)"

definition mul_div :: "int \<Rightarrow> int \<Rightarrow> int \<Rightarrow> int option" where
  "mul_div a b divisor =
     (let result = round_to_double
                     (round_to_double (round_to_double (of_int a) * round_to_double (of_int b))
                        / round_to_double (of_int divisor))
      in to_int64 (std_round result))"

definition mul_scale :: "int \<Rightarrow> int \<Rightarrow> int \<Rightarrow> int option" where
  "mul_scale a sc divisor =
     (let result = round_to_double
                     (round_to_double (round_to_double (of_int a) * round_to_double (of_int sc))
                        / round_to_double (of_int divisor))
      in to_int64 (std_round result))"

text \<open>\<open>operator*\<close> and \<open>operator/\<close> on raw values.\<close>

definition fp_mul :: "nat \<Rightarrow> int \<Rightarrow> int \<Rightarrow> int option" where
  "fp_mul decimals a b = mul_div a b (scale decimals)"

definition fp_div :: "nat \<Rightarrow> int \<Rightarrow> int \<Rightarrow> int option" where
  "fp_div decimals a b = (if b = 0 then Some 0 else mul_scale a (scale decimals) b)"

text \<open>
  Modelled from the spec: \<open>FixedPoint::try_divide\<close>, which the tests and the changelog name
  but the header under \<open>src/\<close> does not define: ``\<open>try_divide(a,b) = None if b==0 else
  round(a.raw * 10^D / b.raw)\<close>''.
\<close>

definition try_divide :: "nat \<Rightarrow> int \<Rightarrow> int \<Rightarrow> int option" where
  "try_divide decimals a b =
     (if b = 0 then None else Some (std_round (of_int (a * 10 ^ decimals) / of_int b)))"


section \<open>Notions of the specification and concrete inputs\<close>

text \<open>The bridging condition \<open>U \<le> lastUpdateId + 1 \<le> u\<close> of the venue's contract, in the
  64-bit arithmetic of the identifiers.\<close>

definition bridges :: "DepthSnapshot \<Rightarrow> DepthUpdate \<Rightarrow> bool" where
  "bridges snapshot update =
     (first_update_id update \<le> last_update_id snapshot + 1 \<and>
      last_update_id snapshot + 1 \<le> final_update_id update)"

text \<open>Constructors for the concrete inputs used below (the scenarios of the unit tests).\<close>

definition mk_update :: "SequenceId \<Rightarrow> SequenceId \<Rightarrow> SequenceId \<Rightarrow> PriceLevel list \<Rightarrow> PriceLevel list \<Rightarrow> DepthUpdate" where
  "mk_update U u pu bs as =
     \<lparr>event_type = ''depthUpdate'', event_time = 0, transaction_time = 0, symbol = ''BTCUSDT'',
      first_update_id = U, final_update_id = u, prev_final_update_id = pu, bids = bs, asks = as\<rparr>"

definition mk_snapshot :: "SequenceId \<Rightarrow> PriceLevel list \<Rightarrow> PriceLevel list \<Rightarrow> DepthSnapshot" where
  "mk_snapshot lid bs as =
     \<lparr>last_update_id = lid, snapshot_symbol = ''BTCUSDT'', snapshot_bids = bs, snapshot_asks = as\<rparr>"

definition waiting_handler :: "DepthUpdate list \<Rightarrow> FeedHandler" where
  "waiting_handler buf =
     \<lparr>fh_state = WaitingSnapshot, buffered_updates = buf, snapshot_requested = True,
      emitted = [ConnectionRestored], snapshot_fetches = 1, reconnects_scheduled = 0\<rparr>"

definition synced_engine :: "SequenceId \<Rightarrow> Engine" where
  "synced_engine lid =
     handle_snapshot (mk_snapshot lid [(4215000000000, 3/2)] [(4215100000000, 1)])
       \<lparr>sync_state = Initializing, last_processed_id = 0, order_book = OrderBook_init 10,
        feed_handler = \<lparr>fh_state = Live, buffered_updates = [], snapshot_requested = False,
                        emitted = [], snapshot_fetches = 1, reconnects_scheduled = 0\<rparr>\<rparr>"

section \<open>Decimal texts and their values\<close>

text \<open>
  A decimal text is an optional sign, integer digits and, optionally, a point followed by
  fraction digits. \<open>decimal_value\<close> is the rational number it denotes; \<open>trunc\<close> rounds
  towards zero.
\<close>

definition is_digit :: "char \<Rightarrow> bool" where
  "is_digit c \<longleftrightarrow> CHR ''0'' \<le> c \<and> c \<le> CHR ''9''"

definition digit_value :: "char \<Rightarrow> int" where
  "digit_value c = int (of_char c) - int (of_char CHR ''0'')"

definition digits_acc :: "int \<Rightarrow> string \<Rightarrow> int" where
  "digits_acc acc cs = foldl (\<lambda>a c. a * 10 + digit_value c) acc cs"

definition digits_value :: "string \<Rightarrow> int" where
  "digits_value cs = digits_acc 0 cs"

definition fraction_digits :: "string option \<Rightarrow> string" where
  "fraction_digits fp = (case fp of None \<Rightarrow> [] | Some f \<Rightarrow> f)"

definition decimal_text :: "string \<Rightarrow> string \<Rightarrow> string option \<Rightarrow> string" where
  "decimal_text sg ip fp = sg @ ip @ (case fp of None \<Rightarrow> [] | Some f \<Rightarrow> CHR ''.'' # f)"

definition well_formed :: "string \<Rightarrow> string \<Rightarrow> string option \<Rightarrow> bool" where
  "well_formed sg ip fp \<longleftrightarrow>
     (sg = [] \<or> sg = ''-'' \<or> sg = ''+'') \<and> list_all is_digit ip \<and>
     list_all is_digit (fraction_digits fp) \<and> (ip \<noteq> [] \<or> fraction_digits fp \<noteq> [])"

definition decimal_value :: "string \<Rightarrow> string \<Rightarrow> string option \<Rightarrow> rat" where
  "decimal_value sg ip fp =
     (if sg = ''-'' then - 1 else 1) *
     (of_int (digits_value ip) +
      of_int (digits_value (fraction_digits fp)) / 10 ^ length (fraction_digits fp))"

definition trunc :: "rat \<Rightarrow> int" where
  "trunc x = (if x < 0 then - \<lfloor>- x\<rfloor> else \<lfloor>x\<rfloor>)"

text \<open>The values of \<open>parse\<close>'s local variables before its loop.\<close>

definition parse_start :: parse_vars where
  "parse_start =
     \<lparr>integer_part = 0, frac_part = 0, frac_digits = 0, in_fraction = False, has_digits = False\<rparr>"

text \<open>The integer digits \<open>ip\<close> reach, as the value of one of their prefixes, one of the two
  numbers just above \<open>INT64_MAX\<close> that pass the loop's overflow test.\<close>

definition reaches_wrap :: "string \<Rightarrow> bool" where
  "reaches_wrap ip \<longleftrightarrow>
     list_ex (\<lambda>k. digits_value (take k ip) = INT64_MAX + 1 \<or> digits_value (take k ip) = INT64_MAX + 2)
       [0..<Suc (length ip)]"


section \<open>Sequences of order-book operations\<close>

datatype BookOp = ApplySnapshot DepthSnapshot | ApplyUpdate DepthUpdate | Clear

fun book_step :: "OrderBook \<Rightarrow> BookOp \<Rightarrow> OrderBook" where
  "book_step book (ApplySnapshot snapshot) = ob_apply_snapshot snapshot book"
| "book_step book (ApplyUpdate update) = ob_apply_update update book"
| "book_step book Clear = ob_clear book"

definition run_book :: "nat \<Rightarrow> BookOp list \<Rightarrow> OrderBook" where
  "run_book levels ops = foldl book_step (OrderBook_init levels) ops"

text \<open>The invariant of a book side: entries in strict comparator order, all quantities
  positive.\<close>

definition side_ok :: "(FixedPrice \<Rightarrow> FixedPrice \<Rightarrow> bool) \<Rightarrow> (FixedPrice \<times> Quantity) list \<Rightarrow> bool" where
  "side_ok lt side \<longleftrightarrow> sorted_wrt lt (map fst side) \<and> list_all (\<lambda>lv. snd lv > 0) side"



section \<open>Snapshot arrival in the feed handler\<close>

lemma replay_buffered_found:
  "replay_buffered snapshot us True h = Inr (True, h\<lparr>emitted := emitted h @ map DepthUpdateMsg us\<rparr>)"
  by (induction us arbitrary: h) (simp_all add: emit_message_def)

lemma replay_buffered_skip:
  "\<forall>x\<in>set pre. \<not> bridges snapshot x \<and> final_update_id x \<le> last_update_id snapshot \<Longrightarrow>
   replay_buffered snapshot (pre @ rest) False h = replay_buffered snapshot rest False h"
  by (induction pre) (auto simp add: bridges_def)

lemma not_dropped_not_bridging:
  fixes lid U u :: "64 word"
  assumes "lid < u" and "\<not> (U \<le> lid + 1 \<and> lid + 1 \<le> u)"
  shows "lid + 1 < U"
proof -
  from assms(1) have "lid + 1 \<le> u"
    by (simp add: inc_le)
  with assms(2) show ?thesis by simp
qed

text \<open>
  Claim C2. When the REST snapshot arrives, the buffered updates are walked once. Let the
  buffer be \<open>dropped @ remaining\<close>, where no update of \<open>dropped\<close> bridges the snapshot and
  each has \<open>u \<le> lastUpdateId\<close>. These are dropped. If the first remaining update is the
  bridging update, it and every later buffered update are emitted after the snapshot, in
  arrival order, and the handler goes \<open>Live\<close>. If the first remaining update has
  \<open>U > lastUpdateId + 1\<close>, nothing but the snapshot is emitted, the handler is back in
  \<open>WaitingSnapshot\<close> with an empty buffer, and a new snapshot has been requested. If nothing
  remains, the handler goes \<open>Live\<close>. A first remaining update is always of one of the two
  kinds.
\<close>

theorem snapshot_arrival_replays_buffer:
  assumes parse: "parse_depth_snapshot body = Inr snapshot"
    and buf: "buffered_updates h = dropped @ remaining"
    and dropped: "\<forall>x\<in>set dropped.
                    \<not> bridges snapshot x \<and> final_update_id x \<le> last_update_id snapshot"
  shows "(\<forall>b rest. remaining = b # rest \<and> bridges snapshot b \<longrightarrow>
            on_snapshot_response parse_depth_snapshot (Inr body) h =
              h\<lparr>fh_state := Live, buffered_updates := [], snapshot_requested := False,
                emitted := emitted h @ SnapshotMsg snapshot # map DepthUpdateMsg (b # rest)\<rparr>)
       \<and> (\<forall>g rest. remaining = g # rest \<and> last_update_id snapshot < final_update_id g \<and>
                   last_update_id snapshot + 1 < first_update_id g \<longrightarrow>
            on_snapshot_response parse_depth_snapshot (Inr body) h =
              h\<lparr>fh_state := WaitingSnapshot, buffered_updates := [], snapshot_requested := True,
                emitted := emitted h @ [SnapshotMsg snapshot],
                snapshot_fetches := Suc (snapshot_fetches h)\<rparr>)
       \<and> (remaining = [] \<longrightarrow>
            on_snapshot_response parse_depth_snapshot (Inr body) h =
              h\<lparr>fh_state := Live, buffered_updates := [], snapshot_requested := False,
                emitted := emitted h @ [SnapshotMsg snapshot]\<rparr>)
       \<and> (\<forall>g rest. remaining = g # rest \<and> \<not> bridges snapshot g \<and>
                   last_update_id snapshot < final_update_id g \<longrightarrow>
            last_update_id snapshot + 1 < first_update_id g)"
proof (intro conjI allI impI)
  fix b rest
  assume "remaining = b # rest \<and> bridges snapshot b"
  with parse buf dropped
  show "on_snapshot_response parse_depth_snapshot (Inr body) h =
          h\<lparr>fh_state := Live, buffered_updates := [], snapshot_requested := False,
            emitted := emitted h @ SnapshotMsg snapshot # map DepthUpdateMsg (b # rest)\<rparr>"
    by (simp add: on_snapshot_response_def fh_apply_snapshot_def set_state_def emit_message_def
        replay_buffered_skip replay_buffered_found bridges_def)
next
  fix g rest
  assume g: "remaining = g # rest \<and> last_update_id snapshot < final_update_id g \<and>
             last_update_id snapshot + 1 < first_update_id g"
  then have "\<not> first_update_id g \<le> last_update_id snapshot + 1"
    and "\<not> final_update_id g \<le> last_update_id snapshot"
    by auto
  with parse buf dropped g
  show "on_snapshot_response parse_depth_snapshot (Inr body) h =
          h\<lparr>fh_state := WaitingSnapshot, buffered_updates := [], snapshot_requested := True,
            emitted := emitted h @ [SnapshotMsg snapshot],
            snapshot_fetches := Suc (snapshot_fetches h)\<rparr>"
    by (simp add: on_snapshot_response_def fh_apply_snapshot_def set_state_def emit_message_def
        replay_buffered_skip request_snapshot_def fetch_snapshot_def)
next
  assume "remaining = []"
  with parse buf dropped
  show "on_snapshot_response parse_depth_snapshot (Inr body) h =
          h\<lparr>fh_state := Live, buffered_updates := [], snapshot_requested := False,
            emitted := emitted h @ [SnapshotMsg snapshot]\<rparr>"
    using replay_buffered_skip [of dropped snapshot "[]"]
    by (simp add: on_snapshot_response_def fh_apply_snapshot_def set_state_def emit_message_def)
next
  fix g rest
  assume "remaining = g # rest \<and> \<not> bridges snapshot g \<and>
          last_update_id snapshot < final_update_id g"
  then show "last_update_id snapshot + 1 < first_update_id g"
    using not_dropped_not_bridging [of "last_update_id snapshot" "final_update_id g" "first_update_id g"]
    by (simp add: bridges_def)
qed

text \<open>The three cases on the buffers \<open>(995,999), (1000,1002), (1003,1004)\<close>, then
  \<open>(995,999), (1005,1006)\<close>, then \<open>(995,999)\<close>, with a snapshot at 1001.\<close>

theorem snapshot_arrival_replays_buffer_witness:
  "bridges (mk_snapshot 1001 [] []) (mk_update 1000 1002 999 [] []) \<and>
   \<not> bridges (mk_snapshot 1001 [] []) (mk_update 995 999 994 [] []) \<and>
   on_snapshot_response (\<lambda>body. Inr (mk_snapshot 1001 [] [])) (Inr ''{}'')
     (waiting_handler [mk_update 995 999 994 [] [], mk_update 1000 1002 999 [] [],
                       mk_update 1003 1004 1002 [] []]) =
     \<lparr>fh_state = Live, buffered_updates = [], snapshot_requested = False,
      emitted = [ConnectionRestored, SnapshotMsg (mk_snapshot 1001 [] []),
                 DepthUpdateMsg (mk_update 1000 1002 999 [] []),
                 DepthUpdateMsg (mk_update 1003 1004 1002 [] [])],
      snapshot_fetches = 1, reconnects_scheduled = 0\<rparr> \<and>
   on_snapshot_response (\<lambda>body. Inr (mk_snapshot 1001 [] [])) (Inr ''{}'')
     (waiting_handler [mk_update 995 999 994 [] [], mk_update 1005 1006 1004 [] []]) =
     \<lparr>fh_state = WaitingSnapshot, buffered_updates = [], snapshot_requested = True,
      emitted = [ConnectionRestored, SnapshotMsg (mk_snapshot 1001 [] [])],
      snapshot_fetches = 2, reconnects_scheduled = 0\<rparr> \<and>
   on_snapshot_response (\<lambda>body. Inr (mk_snapshot 1001 [] [])) (Inr ''{}'')
     (waiting_handler [mk_update 995 999 994 [] []]) =
     \<lparr>fh_state = Live, buffered_updates = [], snapshot_requested = False,
      emitted = [ConnectionRestored, SnapshotMsg (mk_snapshot 1001 [] [])],
      snapshot_fetches = 1, reconnects_scheduled = 0\<rparr>"
  using snapshot_arrival_replays_buffer
          [where parse_depth_snapshot = "\<lambda>body. Inr (mk_snapshot 1001 [] [])" and body = "''{}''"
             and snapshot = "mk_snapshot 1001 [] []"
             and h = "waiting_handler [mk_update 995 999 994 [] [], mk_update 1000 1002 999 [] [],
                                       mk_update 1003 1004 1002 [] []]"
             and dropped = "[mk_update 995 999 994 [] []]"
             and remaining = "[mk_update 1000 1002 999 [] [], mk_update 1003 1004 1002 [] []]"]
        snapshot_arrival_replays_buffer
          [where parse_depth_snapshot = "\<lambda>body. Inr (mk_snapshot 1001 [] [])" and body = "''{}''"
             and snapshot = "mk_snapshot 1001 [] []"
             and h = "waiting_handler [mk_update 995 999 994 [] [], mk_update 1005 1006 1004 [] []]"
             and dropped = "[mk_update 995 999 994 [] []]"
             and remaining = "[mk_update 1005 1006 1004 [] []]"]
        snapshot_arrival_replays_buffer
          [where parse_depth_snapshot = "\<lambda>body. Inr (mk_snapshot 1001 [] [])" and body = "''{}''"
             and snapshot = "mk_snapshot 1001 [] []"
             and h = "waiting_handler [mk_update 995 999 994 [] []]"
             and dropped = "[mk_update 995 999 994 [] []]"
             and remaining = "[]"]
  by (simp add: bridges_def mk_snapshot_def mk_update_def waiting_handler_def)

section \<open>Depth updates in the compute core\<close>

text \<open>
  After a snapshot with \<open>lastUpdateId = 0\<close> the core is \<open>Synced\<close> with
  \<open>last_processed_id = 0\<close>. An update with \<open>pu = 5\<close> then has a sequence gap, yet it is
  applied: the core stays \<open>Synced\<close>, the bid is replaced and the feed handler is not
  signalled.
\<close>

theorem gap_check_skipped_counterexample:
  "sync_state (synced_engine 0) = Synced \<and>
   has_sequence_gap (order_book (synced_engine 0)) 6 5 \<and>
   sync_state (handle_depth_update (mk_update 6 6 5 [(4215000000000, 2)] []) (synced_engine 0)) = Synced \<and>
   book_bids (order_book (handle_depth_update (mk_update 6 6 5 [(4215000000000, 2)] []) (synced_engine 0)))
     = [(4215000000000, 2)] \<and>
   feed_handler (handle_depth_update (mk_update 6 6 5 [(4215000000000, 2)] []) (synced_engine 0))
     = feed_handler (synced_engine 0)"
  by (simp add: synced_engine_def handle_snapshot_def handle_depth_update_def has_sequence_gap_def
      mk_update_def mk_snapshot_def OrderBook_init_def ob_apply_snapshot_def ob_apply_update_def
      apply_bid_update_def apply_side_update_def snapshot_level_def bid_lt_def ask_lt_def)

text \<open>
  Claim C3, with the guard of the source: an update is dropped with the engine unchanged
  unless the core is \<open>Synced\<close>; \<open>has_sequence_gap\<close> holds exactly when \<open>pu\<close> differs from
  the book's last update id; a \<open>Synced\<close> core with \<open>last_processed_id > 0\<close> that sees a gap
  goes to waiting for a snapshot, clears the book, calls \<open>request_snapshot\<close> on the feed
  handler and leaves \<open>last_processed_id\<close> alone; in every other \<open>Synced\<close> case (no gap, or
  \<open>last_processed_id = 0\<close>) the update is applied and \<open>last_processed_id\<close> becomes \<open>u\<close>.
\<close>

theorem depth_update_dispatch:
  "(sync_state e \<noteq> Synced \<longrightarrow> handle_depth_update update e = e)
   \<and> (has_sequence_gap (order_book e) (first_update_id update) (prev_final_update_id update)
        \<longleftrightarrow> prev_final_update_id update \<noteq> book_last_update_id (order_book e))
   \<and> (sync_state e = Synced \<and> last_processed_id e > 0 \<and>
       has_sequence_gap (order_book e) (first_update_id update) (prev_final_update_id update) \<longrightarrow>
        handle_depth_update update e =
          e\<lparr>sync_state := AwaitingSnapshot,
            order_book := (order_book e)\<lparr>book_bids := [], book_asks := [], book_last_update_id := 0\<rparr>,
            feed_handler := request_snapshot (feed_handler e)\<rparr>)
   \<and> (sync_state e = Synced \<and>
       \<not> (last_processed_id e > 0 \<and>
          has_sequence_gap (order_book e) (first_update_id update) (prev_final_update_id update)) \<longrightarrow>
        handle_depth_update update e =
          e\<lparr>order_book := ob_apply_update update (order_book e),
            last_processed_id := final_update_id update\<rparr>
        \<and> book_last_update_id (order_book (handle_depth_update update e)) = final_update_id update)"
  by (simp add: handle_depth_update_def has_sequence_gap_def ob_clear_def ob_apply_update_def Let_def)

theorem depth_update_dispatch_witness:
  "sync_state ((synced_engine 1000)\<lparr>sync_state := AwaitingSnapshot\<rparr>) \<noteq> Synced \<and>
   handle_depth_update (mk_update 1001 1001 1000 [(4215000000000, 2)] [])
       ((synced_engine 1000)\<lparr>sync_state := AwaitingSnapshot\<rparr>)
     = (synced_engine 1000)\<lparr>sync_state := AwaitingSnapshot\<rparr> \<and>
   sync_state (synced_engine 1000) = Synced \<and> last_processed_id (synced_engine 1000) > 0 \<and>
   has_sequence_gap (order_book (synced_engine 1000)) 1005 1003 \<and>
   handle_depth_update (mk_update 1005 1005 1003 [] []) (synced_engine 1000) =
     \<lparr>sync_state = AwaitingSnapshot, last_processed_id = 1000,
      order_book = \<lparr>book_bids = [], book_asks = [], book_last_update_id = 0, imbalance_levels = 10\<rparr>,
      feed_handler = \<lparr>fh_state = WaitingSnapshot, buffered_updates = [], snapshot_requested = True,
                      emitted = [], snapshot_fetches = 2, reconnects_scheduled = 0\<rparr>\<rparr> \<and>
   \<not> has_sequence_gap (order_book (synced_engine 1000)) 1001 1000 \<and>
   book_bids (order_book (handle_depth_update (mk_update 1001 1001 1000 [(4215000000000, 2)] [])
                            (synced_engine 1000))) = [(4215000000000, 2)] \<and>
   book_last_update_id (order_book (handle_depth_update (mk_update 1001 1001 1000 [(4215000000000, 2)] [])
                            (synced_engine 1000))) = 1001 \<and>
   last_processed_id (handle_depth_update (mk_update 1001 1001 1000 [(4215000000000, 2)] [])
                            (synced_engine 1000)) = 1001"
  using depth_update_dispatch
          [of "(synced_engine 1000)\<lparr>sync_state := AwaitingSnapshot\<rparr>"
              "mk_update 1001 1001 1000 [(4215000000000, 2)] []"]
        depth_update_dispatch [of "synced_engine 1000" "mk_update 1005 1005 1003 [] []"]
        depth_update_dispatch
          [of "synced_engine 1000" "mk_update 1001 1001 1000 [(4215000000000, 2)] []"]
  by (simp add: synced_engine_def handle_snapshot_def has_sequence_gap_def
      mk_update_def mk_snapshot_def OrderBook_init_def ob_apply_snapshot_def ob_apply_update_def
      apply_bid_update_def apply_side_update_def snapshot_level_def bid_lt_def ask_lt_def
      request_snapshot_def fetch_snapshot_def set_state_def)

section \<open>Parsing decimal texts\<close>

lemma digit_value_range: "is_digit c \<Longrightarrow> 0 \<le> digit_value c \<and> digit_value c \<le> 9"
  by (simp add: is_digit_def digit_value_def less_eq_char_def)

lemma is_digit_not_point: "is_digit c \<Longrightarrow> c \<noteq> CHR ''.''"
  by (auto simp add: is_digit_def less_eq_char_def)

lemma is_digit_not_invalid: "is_digit c \<Longrightarrow> \<not> (c < CHR ''0'' \<or> c > CHR ''9'')"
  by (auto simp add: is_digit_def)

lemma digits_acc_Nil [simp]: "digits_acc a [] = a"
  by (simp add: digits_acc_def)

lemma digits_acc_Cons [simp]: "digits_acc a (c # cs) = digits_acc (a * 10 + digit_value c) cs"
  by (simp add: digits_acc_def)

lemma digits_acc_append: "digits_acc a (xs @ ys) = digits_acc (digits_acc a xs) ys"
  by (simp add: digits_acc_def)

lemma digits_acc_shift: "digits_acc a cs = a * 10 ^ length cs + digits_acc 0 cs"
proof (induction cs arbitrary: a)
  case Nil
  show ?case by simp
next
  case (Cons c cs)
  have "digits_acc a (c # cs) = (a * 10 + digit_value c) * 10 ^ length cs + digits_acc 0 cs"
    using Cons.IH [of "a * 10 + digit_value c"] by simp
  moreover have "digits_acc 0 (c # cs) = digit_value c * 10 ^ length cs + digits_acc 0 cs"
    using Cons.IH [of "digit_value c"] by simp
  ultimately show ?case by (simp add: algebra_simps)
qed

lemma digits_acc_bounds:
  "list_all is_digit cs \<Longrightarrow> 0 \<le> digits_acc 0 cs \<and> digits_acc 0 cs < 10 ^ length cs"
proof (induction cs rule: rev_induct)
  case Nil
  show ?case by simp
next
  case (snoc c cs)
  then have d: "0 \<le> digit_value c \<and> digit_value c \<le> 9"
    and ih: "0 \<le> digits_acc 0 cs \<and> digits_acc 0 cs < 10 ^ length cs"
    by (simp_all add: digit_value_range)
  have "digits_acc 0 (cs @ [c]) = digits_acc 0 cs * 10 + digit_value c"
    by (simp add: digits_acc_append)
  with d ih show ?case by simp
qed

lemma digits_acc_ge:
  assumes "list_all is_digit cs" and "0 \<le> a"
  shows "a \<le> digits_acc a cs"
proof -
  have "a * 1 \<le> a * 10 ^ length cs"
    using assms(2) by (intro mult_left_mono) simp_all
  with digits_acc_bounds [OF assms(1)] digits_acc_shift [of a cs] show ?thesis by simp
qed

lemma wrap64_id: "- 9223372036854775808 \<le> x \<Longrightarrow> x \<le> 9223372036854775807 \<Longrightarrow> wrap64 x = x"
  by (simp add: wrap64_def)

lemma parse_loop_int_digits:
  assumes "list_all is_digit ip" and "\<not> in_fraction v" and "0 \<le> integer_part v"
    and "digits_acc (integer_part v) ip \<le> INT64_MAX"
  shows "parse_loop d (ip @ rest) v =
           parse_loop d rest (v\<lparr>has_digits := has_digits v \<or> ip \<noteq> [],
                                integer_part := digits_acc (integer_part v) ip\<rparr>)"
  using assms
proof (induction ip arbitrary: v)
  case Nil
  then show ?case by simp
next
  case (Cons c cs)
  from Cons.prems have c: "is_digit c" and cs: "list_all is_digit cs" by simp_all
  let ?n = "integer_part v * 10 + digit_value c"
  from digit_value_range [OF c] Cons.prems(3) have n0: "0 \<le> ?n" by simp
  from digits_acc_ge [OF cs n0] Cons.prems(4) have nmax: "?n \<le> INT64_MAX" by simp
  with digit_value_range [OF c] have safe: "\<not> integer_part v > max_safe_int"
    by (simp add: max_safe_int_def INT64_MAX_def)
  have w: "wrap64 (wrap64 (integer_part v * 10) + digit_value c) = ?n"
    using n0 nmax digit_value_range [OF c] Cons.prems(3)
    by (simp add: wrap64_id INT64_MAX_def)
  let ?v = "v\<lparr>has_digits := True, integer_part := ?n\<rparr>"
  have step: "parse_loop d ((c # cs) @ rest) v = parse_loop d (cs @ rest) ?v"
    using is_digit_not_point [OF c] is_digit_not_invalid [OF c] Cons.prems(2) safe w
    by (simp add: Let_def digit_value_def)
  have "parse_loop d (cs @ rest) ?v =
          parse_loop d rest (?v\<lparr>has_digits := has_digits ?v \<or> cs \<noteq> [],
                                 integer_part := digits_acc (integer_part ?v) cs\<rparr>)"
    using Cons.prems(2,4) n0 by (intro Cons.IH [OF cs]) simp_all
  with step show ?case by simp
qed


lemma parse_loop_frac_digits:
  assumes "list_all is_digit fp" and "in_fraction v" and "frac_digits v \<le> d" and "d \<le> 18"
    and "0 \<le> frac_part v" and "frac_part v < 10 ^ frac_digits v"
  shows "parse_loop d (fp @ rest) v =
           parse_loop d rest
             (v\<lparr>has_digits := has_digits v \<or> fp \<noteq> [],
                frac_part := digits_acc (frac_part v) (take (d - frac_digits v) fp),
                frac_digits := min d (frac_digits v + length fp)\<rparr>)"
  using assms
proof (induction fp arbitrary: v)
  case Nil
  then show ?case by (simp add: min_def)
next
  case (Cons c cs)
  from Cons.prems have c: "is_digit c" and cs: "list_all is_digit cs" by simp_all
  show ?case
  proof (cases "frac_digits v < d")
    case True
    let ?n = "frac_part v * 10 + digit_value c"
    from digit_value_range [OF c] Cons.prems(5) have n0: "0 \<le> ?n" by simp
    from Cons.prems(6) have "frac_part v + 1 \<le> 10 ^ frac_digits v" by simp
    then have "(frac_part v + 1) * 10 \<le> 10 ^ frac_digits v * 10"
      by (rule mult_right_mono) simp
    with digit_value_range [OF c] have nlt: "?n < 10 ^ Suc (frac_digits v)"
      by (simp add: algebra_simps)
    have "(10::int) ^ Suc (frac_digits v) \<le> 10 ^ 18"
      using True Cons.prems(4) by (intro power_increasing) simp_all
    with nlt have nmax: "?n < 1000000000000000000" by simp
    have w: "wrap64 (wrap64 (frac_part v * 10) + digit_value c) = ?n"
      using n0 nmax digit_value_range [OF c] Cons.prems(5)
      by (simp add: wrap64_id)
    let ?v = "v\<lparr>has_digits := True, frac_part := ?n, frac_digits := Suc (frac_digits v)\<rparr>"
    have step: "parse_loop d ((c # cs) @ rest) v = parse_loop d (cs @ rest) ?v"
      using is_digit_not_point [OF c] is_digit_not_invalid [OF c] Cons.prems(2) True w
      by (simp add: Let_def digit_value_def)
    have "parse_loop d (cs @ rest) ?v =
            parse_loop d rest
              (?v\<lparr>has_digits := has_digits ?v \<or> cs \<noteq> [],
                  frac_part := digits_acc (frac_part ?v) (take (d - frac_digits ?v) cs),
                  frac_digits := min d (frac_digits ?v + length cs)\<rparr>)"
      using Cons.prems(2,4) True n0 nlt by (intro Cons.IH [OF cs]) simp_all
    with step have r: "parse_loop d ((c # cs) @ rest) v =
            parse_loop d rest
              (?v\<lparr>has_digits := has_digits ?v \<or> cs \<noteq> [],
                  frac_part := digits_acc (frac_part ?v) (take (d - frac_digits ?v) cs),
                  frac_digits := min d (frac_digits ?v + length cs)\<rparr>)"
      by (simp only:)
    from True obtain k where k: "d - frac_digits v = Suc k" "d - Suc (frac_digits v) = k"
      by (cases "d - frac_digits v") simp_all
    show ?thesis unfolding r using k by simp
  next
    case False
    with Cons.prems(3) have eq: "frac_digits v = d" by simp
    let ?v = "v\<lparr>has_digits := True\<rparr>"
    have step: "parse_loop d ((c # cs) @ rest) v = parse_loop d (cs @ rest) ?v"
      using is_digit_not_point [OF c] is_digit_not_invalid [OF c] Cons.prems(2) False
      by (simp add: Let_def)
    have "parse_loop d (cs @ rest) ?v =
            parse_loop d rest
              (?v\<lparr>has_digits := has_digits ?v \<or> cs \<noteq> [],
                  frac_part := digits_acc (frac_part ?v) (take (d - frac_digits ?v) cs),
                  frac_digits := min d (frac_digits ?v + length cs)\<rparr>)"
      using Cons.prems(2-6) by (intro Cons.IH [OF cs]) simp_all
    with step have r: "parse_loop d ((c # cs) @ rest) v =
            parse_loop d rest
              (?v\<lparr>has_digits := has_digits ?v \<or> cs \<noteq> [],
                  frac_part := digits_acc (frac_part ?v) (take (d - frac_digits ?v) cs),
                  frac_digits := min d (frac_digits ?v + length cs)\<rparr>)"
      by (simp only:)
    show ?thesis unfolding r using eq by simp
  qed
qed

lemma scale_frac_exact:
  "0 \<le> f \<Longrightarrow> f * 10 ^ n \<le> INT64_MAX \<Longrightarrow> scale_frac n f = f * 10 ^ n"
proof (induction n arbitrary: f)
  case 0
  show ?case by simp
next
  case (Suc n)
  have "f * 10 * 1 \<le> f * 10 * 10 ^ n"
    using Suc.prems(1) by (intro mult_left_mono) simp_all
  with Suc.prems have "f * 10 \<le> 9223372036854775807"
    by (simp add: INT64_MAX_def)
  with Suc.prems(1) have "wrap64 (f * 10) = f * 10" by (simp add: wrap64_id)
  with Suc.IH [of "f * 10"] Suc.prems show ?case by (simp add: mult.assoc)
qed

lemma fraction_truncated:
  assumes "list_all is_digit f"
  shows "digits_acc 0 (take d f) * 10 ^ (d - length (take d f)) = (digits_acc 0 f * 10 ^ d) div 10 ^ length f"
proof (cases "length f \<le> d")
  case True
  then have "(10::int) ^ d = 10 ^ (d - length f) * 10 ^ length f"
    by (simp flip: power_add)
  then have "digits_acc 0 f * 10 ^ d = (digits_acc 0 f * 10 ^ (d - length f)) * 10 ^ length f"
    by (simp only: mult.assoc)
  then have "(digits_acc 0 f * 10 ^ d) div 10 ^ length f = digits_acc 0 f * 10 ^ (d - length f)"
    by (simp only: nonzero_mult_div_cancel_right) simp
  with True show ?thesis by simp
next
  case False
  define a where "a = take d f"
  define b where "b = drop d f"
  have f: "f = a @ b" and la: "length a = d" and lf: "length f = d + length b"
    using False by (simp_all add: a_def b_def)
  from assms have "list_all is_digit b" by (simp add: b_def list_all_iff) (meson in_set_dropD)
  from digits_acc_bounds [OF this] have b: "0 \<le> digits_acc 0 b" "digits_acc 0 b < 10 ^ length b"
    by simp_all
  have v: "digits_acc 0 f = digits_acc 0 a * 10 ^ length b + digits_acc 0 b"
    using digits_acc_shift [of "digits_acc 0 a" b] by (simp add: f digits_acc_append)
  have "(digits_acc 0 f * 10 ^ d) div 10 ^ length f
          = ((digits_acc 0 a * 10 ^ length b + digits_acc 0 b) * 10 ^ d) div (10 ^ length b * 10 ^ d)"
    by (simp add: v lf power_add mult.commute)
  also have "\<dots> = (digits_acc 0 a * 10 ^ length b + digits_acc 0 b) div 10 ^ length b"
    by simp
  also have "\<dots> = digits_acc 0 a"
    using b by simp
  finally show ?thesis using la by (simp add: a_def)
qed

lemma floor_scaled_decimal:
  fixes n m :: int and l d :: nat
  assumes "0 \<le> m"
  shows "\<lfloor>(of_int n + of_int m / 10 ^ l) * (10 ^ d :: rat)\<rfloor> = n * 10 ^ d + (m * 10 ^ d) div 10 ^ l"
proof -
  have "(of_int n + of_int m / 10 ^ l) * (10 ^ d :: rat)
          = of_int (n * 10 ^ d) + of_int (m * 10 ^ d) / of_int (10 ^ l)"
    by (simp add: algebra_simps)
  moreover have "\<lfloor>of_int (n * 10 ^ d) + of_int (m * 10 ^ d) / of_int (10 ^ l) :: rat\<rfloor>
                   = n * 10 ^ d + (m * 10 ^ d) div 10 ^ l"
    by (simp only: int_add_floor [symmetric] floor_divide_of_int_eq)
  ultimately show ?thesis by (simp only:)
qed

lemma truncate_decimal_value:
  assumes "list_all is_digit ip" and "list_all is_digit (fraction_digits fp)"
  shows "trunc (decimal_value sg ip fp * 10 ^ d) =
           (if sg = ''-'' then - 1 else 1) *
           (digits_value ip * 10 ^ d +
            (digits_value (fraction_digits fp) * 10 ^ d) div 10 ^ length (fraction_digits fp))"
proof -
  let ?n = "digits_value ip" and ?m = "digits_value (fraction_digits fp)"
  let ?l = "length (fraction_digits fp)"
  let ?x = "(of_int ?n + of_int ?m / 10 ^ ?l) * (10 ^ d :: rat)"
  from digits_acc_bounds [OF assms(1)] digits_acc_bounds [OF assms(2)]
  have n0: "0 \<le> ?n" and m0: "0 \<le> ?m" by (simp_all add: digits_value_def)
  then have x0: "0 \<le> ?x" by simp
  have fl: "\<lfloor>?x\<rfloor> = ?n * 10 ^ d + (?m * 10 ^ d) div 10 ^ ?l"
    by (rule floor_scaled_decimal [OF m0])
  show ?thesis
  proof (cases "sg = ''-''")
    case True
    then have "decimal_value sg ip fp * 10 ^ d = - ?x"
      by (simp add: decimal_value_def algebra_simps)
    moreover have "trunc (- ?x) = - \<lfloor>?x\<rfloor>"
      using x0 by (cases "?x = 0") (simp_all add: trunc_def)
    ultimately show ?thesis using True fl by simp
  next
    case False
    then have "decimal_value sg ip fp * 10 ^ d = ?x" by (simp add: decimal_value_def)
    moreover have "trunc ?x = \<lfloor>?x\<rfloor>"
      using x0 by (simp add: trunc_def)
    ultimately show ?thesis using False fl by simp
  qed
qed



lemma parse_loop_body:
  assumes ip: "list_all is_digit ip" and f: "list_all is_digit (fraction_digits fp)"
    and d: "d \<le> 18" and n: "digits_value ip \<le> INT64_MAX"
  shows "parse_loop d (ip @ (case fp of None \<Rightarrow> [] | Some f \<Rightarrow> CHR ''.'' # f) @ rest) parse_start =
           parse_loop d rest
             \<lparr>integer_part = digits_value ip,
              frac_part = digits_value (take d (fraction_digits fp)),
              frac_digits = min d (length (fraction_digits fp)),
              in_fraction = (fp \<noteq> None),
              has_digits = (ip \<noteq> [] \<or> fraction_digits fp \<noteq> [])\<rparr>"
proof -
  let ?v = "parse_start\<lparr>has_digits := has_digits parse_start \<or> ip \<noteq> [],
                         integer_part := digits_acc (integer_part parse_start) ip\<rparr>"
  have 1: "parse_loop d (ip @ more) parse_start = parse_loop d more ?v" for more
    using n by (intro parse_loop_int_digits [OF ip]) (simp_all add: parse_start_def digits_value_def)
  show ?thesis
  proof (cases fp)
    case None
    then show ?thesis
      using 1 [of rest] by (simp add: parse_start_def digits_value_def fraction_digits_def)
  next
    case (Some fr)
    with f have fr: "list_all is_digit fr" by (simp add: fraction_digits_def)
    let ?w = "?v\<lparr>in_fraction := True\<rparr>"
    have 2: "parse_loop d (CHR ''.'' # fr @ rest) ?v = parse_loop d (fr @ rest) ?w"
      by (simp add: parse_start_def)
    have 3: "parse_loop d (fr @ rest) ?w =
           parse_loop d rest
             (?w\<lparr>has_digits := has_digits ?w \<or> fr \<noteq> [],
                 frac_part := digits_acc (frac_part ?w) (take (d - frac_digits ?w) fr),
                 frac_digits := min d (frac_digits ?w + length fr)\<rparr>)"
      using d by (intro parse_loop_frac_digits [OF fr]) (simp_all add: parse_start_def)
    show ?thesis
      using 1 [of "CHR ''.'' # fr @ rest"] 2 3 Some
      by (simp add: parse_start_def digits_value_def fraction_digits_def)
  qed
qed

lemma parse_unfold:
  assumes "body \<noteq> []"
    and "sg = [] \<and> hd body \<noteq> CHR ''-'' \<and> hd body \<noteq> CHR ''+'' \<or> sg = ''-'' \<or> sg = ''+''"
  shows "parse d (sg @ body) =
     (case parse_loop d body parse_start of
        Inl e \<Rightarrow> Inl e
      | Inr v \<Rightarrow>
          if \<not> has_digits v then Inl (invalid_argument ''No digits found in number'')
          else if integer_part v > INT64_MAX div scale d
          then Inl (overflow_error ''Value too large for fixed-point representation'')
          else Inr (if sg = ''-''
                    then wrap64 (- wrap64 (wrap64 (integer_part v * scale d) +
                                           scale_frac (d - frac_digits v) (frac_part v)))
                    else wrap64 (wrap64 (integer_part v * scale d) +
                                 scale_frac (d - frac_digits v) (frac_part v))))"
proof -
  from assms(1) have len: "\<not> length body \<le> 0" by simp
  from assms(2) consider "sg = [] \<and> hd body \<noteq> CHR ''-'' \<and> hd body \<noteq> CHR ''+''"
    | "sg = ''-''" | "sg = ''+''" by blast
  then show ?thesis
  proof cases
    case 1
    with assms(1) len show ?thesis
      by (simp add: parse_def parse_start_def Let_def split: sum.splits)
  next
    case 2
    with assms(1) show ?thesis
      by (simp add: parse_def parse_start_def Let_def split: sum.splits)
  next
    case 3
    with assms(1) show ?thesis
      by (simp add: parse_def parse_start_def Let_def split: sum.splits)
  qed
qed

lemma body_head:
  assumes "list_all is_digit ip" and "ip \<noteq> [] \<or> fp \<noteq> None"
  shows "ip @ (case fp of None \<Rightarrow> [] | Some f \<Rightarrow> CHR ''.'' # f) \<noteq> []"
    and "hd (ip @ (case fp of None \<Rightarrow> [] | Some f \<Rightarrow> CHR ''.'' # f)) \<noteq> CHR ''-''"
    and "hd (ip @ (case fp of None \<Rightarrow> [] | Some f \<Rightarrow> CHR ''.'' # f)) \<noteq> CHR ''+''"
proof -
  show "ip @ (case fp of None \<Rightarrow> [] | Some f \<Rightarrow> CHR ''.'' # f) \<noteq> []"
    using assms(2) by (cases fp) simp_all
  have "hd (ip @ (case fp of None \<Rightarrow> [] | Some f \<Rightarrow> CHR ''.'' # f)) = CHR ''.'' \<or>
        is_digit (hd (ip @ (case fp of None \<Rightarrow> [] | Some f \<Rightarrow> CHR ''.'' # f)))"
    using assms by (cases ip; cases fp) simp_all
  then show "hd (ip @ (case fp of None \<Rightarrow> [] | Some f \<Rightarrow> CHR ''.'' # f)) \<noteq> CHR ''-''"
    and "hd (ip @ (case fp of None \<Rightarrow> [] | Some f \<Rightarrow> CHR ''.'' # f)) \<noteq> CHR ''+''"
    by (auto simp add: is_digit_def less_eq_char_def)
qed

lemma parse_decimal_text:
  assumes wf: "well_formed sg ip fp" and d: "d \<le> 18"
    and range: "\<bar>trunc (decimal_value sg ip fp * 10 ^ d)\<bar> \<le> INT64_MAX"
  shows "parse d (decimal_text sg ip fp) = Inr (trunc (decimal_value sg ip fp * 10 ^ d))"
proof -
  let ?f = "fraction_digits fp"
  let ?N = "digits_value ip"
  let ?F = "(digits_value ?f * 10 ^ d) div 10 ^ length ?f"
  let ?body = "ip @ (case fp of None \<Rightarrow> [] | Some f \<Rightarrow> CHR ''.'' # f)"
  from wf have ip: "list_all is_digit ip" and f: "list_all is_digit ?f"
    and sg: "sg = [] \<or> sg = ''-'' \<or> sg = ''+''" and ne: "ip \<noteq> [] \<or> ?f \<noteq> []"
    by (simp_all add: well_formed_def)
  from ne have ne': "ip \<noteq> [] \<or> fp \<noteq> None" by (auto simp add: fraction_digits_def split: option.splits)
  from sg body_head(2,3) [OF ip ne']
  have sg': "sg = [] \<and> hd ?body \<noteq> CHR ''-'' \<and> hd ?body \<noteq> CHR ''+'' \<or> sg = ''-'' \<or> sg = ''+''"
    by blast
  have tr: "trunc (decimal_value sg ip fp * 10 ^ d) =
              (if sg = ''-'' then - 1 else 1) * (?N * 10 ^ d + ?F)"
    by (rule truncate_decimal_value [OF ip f])
  from digits_acc_bounds [OF ip] digits_acc_bounds [OF f]
  have N0: "0 \<le> ?N" and m0: "0 \<le> digits_value ?f" by (simp_all add: digits_value_def)
  then have F0: "0 \<le> ?F" by (simp add: pos_imp_zdiv_nonneg_iff)
  have NF0: "0 \<le> ?N * 10 ^ d + ?F" using N0 F0 by simp
  with range tr have NF: "?N * 10 ^ d + ?F \<le> INT64_MAX"
    by (simp split: if_splits)
  have Nd0: "0 \<le> ?N * 10 ^ d" using N0 by simp
  have Ns: "?N * 10 ^ d \<le> INT64_MAX" and Fm: "?F \<le> INT64_MAX" using NF Nd0 F0 by linarith+
  have "?N * 1 \<le> ?N * 10 ^ d" using N0 by (intro mult_left_mono) simp_all
  with Ns have Nm: "?N \<le> INT64_MAX" by simp
  have "(?N * 10 ^ d) div 10 ^ d \<le> INT64_MAX div 10 ^ d"
    using Ns by (intro zdiv_mono1) simp_all
  then have Nd: "\<not> ?N > INT64_MAX div scale d" by (simp add: scale_def)
  have loop: "parse_loop d ?body parse_start =
           Inr \<lparr>integer_part = ?N, frac_part = digits_value (take d ?f),
                frac_digits = min d (length ?f), in_fraction = (fp \<noteq> None),
                has_digits = (ip \<noteq> [] \<or> ?f \<noteq> [])\<rparr>"
    using parse_loop_body [OF ip f d Nm, of "[]"] by simp
  have Feq: "digits_value (take d ?f) * 10 ^ (d - min d (length ?f)) = ?F"
    using fraction_truncated [OF f, of d] by (simp add: digits_value_def min.commute)
  from f have "list_all is_digit (take d ?f)"
    by (simp add: list_all_iff) (meson in_set_takeD)
  from digits_acc_bounds [OF this] have t0: "0 \<le> digits_value (take d ?f)"
    by (simp add: digits_value_def)
  have sf: "scale_frac (d - min d (length ?f)) (digits_value (take d ?f)) = ?F"
    using scale_frac_exact [OF t0, of "d - min d (length ?f)"] Feq Fm by simp
  have w1: "wrap64 (?N * scale d) = ?N * 10 ^ d"
    using Ns Nd0 by (simp add: wrap64_id scale_def INT64_MAX_def)
  have w2: "wrap64 (?N * 10 ^ d + ?F) = ?N * 10 ^ d + ?F"
    using NF NF0 by (simp add: wrap64_id INT64_MAX_def)
  have w3: "wrap64 (- (?N * 10 ^ d) - ?F) = - (?N * 10 ^ d) - ?F"
    using NF NF0 by (simp add: wrap64_id INT64_MAX_def)
  have "parse d (sg @ ?body) =
          Inr (if sg = ''-'' then - (?N * 10 ^ d + ?F) else ?N * 10 ^ d + ?F)"
    unfolding parse_unfold [OF body_head(1) [OF ip ne'] sg', of d] loop
    using ne Nd by (simp add: sf w1 w2 w3)
  then show ?thesis by (simp add: decimal_text_def tr)
qed



lemma parse_loop_int_overflow:
  assumes "list_all is_digit ip" and "\<not> in_fraction v"
    and "0 \<le> integer_part v" and "integer_part v \<le> INT64_MAX"
    and "\<forall>k\<le>length ip. digits_acc (integer_part v) (take k ip) \<noteq> INT64_MAX + 1 \<and>
                        digits_acc (integer_part v) (take k ip) \<noteq> INT64_MAX + 2"
    and "digits_acc (integer_part v) ip > INT64_MAX"
  shows "parse_loop d (ip @ rest) v = Inl (overflow_error ''Integer part overflow during parse'')"
  using assms
proof (induction ip arbitrary: v)
  case Nil
  then show ?case by simp
next
  case (Cons c cs)
  from Cons.prems have c: "is_digit c" and cs: "list_all is_digit cs" by simp_all
  show ?case
  proof (cases "integer_part v > max_safe_int")
    case True
    with is_digit_not_point [OF c] is_digit_not_invalid [OF c] Cons.prems(2)
    show ?thesis by (simp add: Let_def)
  next
    case False
    let ?n = "integer_part v * 10 + digit_value c"
    from digit_value_range [OF c] Cons.prems(3) have n0: "0 \<le> ?n" by simp
    from False digit_value_range [OF c] have "?n \<le> INT64_MAX + 2"
      by (simp add: max_safe_int_def INT64_MAX_def)
    moreover from Cons.prems(5) [rule_format, of 1]
    have "?n \<noteq> INT64_MAX + 1 \<and> ?n \<noteq> INT64_MAX + 2" by simp
    ultimately have nmax: "?n \<le> INT64_MAX" by linarith
    have w: "wrap64 (wrap64 (integer_part v * 10) + digit_value c) = ?n"
      using n0 nmax digit_value_range [OF c] Cons.prems(3)
      by (simp add: wrap64_id INT64_MAX_def)
    let ?v = "v\<lparr>has_digits := True, integer_part := ?n\<rparr>"
    have step: "parse_loop d ((c # cs) @ rest) v = parse_loop d (cs @ rest) ?v"
      using is_digit_not_point [OF c] is_digit_not_invalid [OF c] Cons.prems(2) False w
      by (simp add: Let_def digit_value_def)
    have pre: "\<forall>k\<le>length cs. digits_acc (integer_part ?v) (take k cs) \<noteq> INT64_MAX + 1 \<and>
                        digits_acc (integer_part ?v) (take k cs) \<noteq> INT64_MAX + 2"
    proof (intro allI impI)
      fix k assume "k \<le> length cs"
      with Cons.prems(5) [rule_format, of "Suc k"]
      show "digits_acc (integer_part ?v) (take k cs) \<noteq> INT64_MAX + 1 \<and>
            digits_acc (integer_part ?v) (take k cs) \<noteq> INT64_MAX + 2" by simp
    qed
    have "parse_loop d (cs @ rest) ?v = Inl (overflow_error ''Integer part overflow during parse'')"
      using Cons.prems(2,6) n0 nmax pre by (intro Cons.IH [OF cs]) simp_all
    with step show ?thesis by simp
  qed
qed

lemma reaches_wrap_iff:
  "reaches_wrap ip \<longleftrightarrow>
     (\<exists>k\<le>length ip. digits_value (take k ip) = INT64_MAX + 1 \<or> digits_value (take k ip) = INT64_MAX + 2)"
  unfolding reaches_wrap_def list_ex_iff set_upt
  by (auto simp add: less_Suc_eq_le)

lemma parse_loop_integer_overflow:
  assumes ip: "list_all is_digit ip" and big: "digits_value ip > INT64_MAX" and ns: "\<not> reaches_wrap ip"
  shows "parse_loop d (ip @ rest) parse_start =
           Inl (overflow_error ''Integer part overflow during parse'')"
  using big ns
  by (intro parse_loop_int_overflow [OF ip])
     (auto simp add: parse_start_def digits_value_def INT64_MAX_def reaches_wrap_iff)

lemma not_digit_invalid: "\<not> is_digit c \<Longrightarrow> c < CHR ''0'' \<or> c > CHR ''9''"
  by (auto simp add: is_digit_def)

lemma parse_empty: "parse d [] = Inr 0"
  by (simp add: parse_def)

lemma parse_sign_only:
  "parse d ''-'' = Inl (invalid_argument ''Invalid number format: sign only'')"
  "parse d ''+'' = Inl (invalid_argument ''Invalid number format: sign only'')"
  by (simp_all add: parse_def)

lemma parse_no_digits:
  assumes "sg = [] \<or> sg = ''-'' \<or> sg = ''+''"
  shows "parse d (sg @ ''.'') = Inl (invalid_argument ''No digits found in number'')"
  using assms by (auto simp add: parse_def)

lemma parse_value_too_large:
  assumes sg: "sg = [] \<or> sg = ''-'' \<or> sg = ''+''" and ip: "list_all is_digit ip"
    and f: "list_all is_digit (fraction_digits fp)" and ne: "ip \<noteq> [] \<or> fraction_digits fp \<noteq> []"
    and d: "d \<le> 18" and big: "INT64_MAX div scale d < digits_value ip"
    and n: "digits_value ip \<le> INT64_MAX"
  shows "parse d (decimal_text sg ip fp) =
           Inl (overflow_error ''Value too large for fixed-point representation'')"
proof -
  let ?body = "ip @ (case fp of None \<Rightarrow> [] | Some f \<Rightarrow> CHR ''.'' # f)"
  from ne have ne': "ip \<noteq> [] \<or> fp \<noteq> None"
    by (auto simp add: fraction_digits_def split: option.splits)
  from sg body_head(2,3) [OF ip ne']
  have sg': "sg = [] \<and> hd ?body \<noteq> CHR ''-'' \<and> hd ?body \<noteq> CHR ''+'' \<or> sg = ''-'' \<or> sg = ''+''"
    by blast
  show ?thesis
    unfolding decimal_text_def parse_unfold [OF body_head(1) [OF ip ne'] sg', of d]
    using parse_loop_body [OF ip f d n, of "[]"] ne big by simp
qed

lemma parse_integer_overflow:
  assumes sg: "sg = [] \<or> sg = ''-'' \<or> sg = ''+''" and ip: "list_all is_digit ip"
    and big: "INT64_MAX < digits_value ip" and ns: "\<not> reaches_wrap ip"
  shows "parse d (sg @ ip @ rest) = Inl (overflow_error ''Integer part overflow during parse'')"
proof -
  from big have ne: "ip \<noteq> []" by (auto simp add: digits_value_def INT64_MAX_def)
  then have b: "ip @ rest \<noteq> []" by simp
  from ne ip have "is_digit (hd (ip @ rest))" by (cases ip) simp_all
  then have "hd (ip @ rest) \<noteq> CHR ''-''" "hd (ip @ rest) \<noteq> CHR ''+''"
    by (auto simp add: is_digit_def less_eq_char_def)
  with sg
  have sg': "sg = [] \<and> hd (ip @ rest) \<noteq> CHR ''-'' \<and> hd (ip @ rest) \<noteq> CHR ''+'' \<or> sg = ''-'' \<or> sg = ''+''"
    by blast
  show ?thesis
    unfolding parse_unfold [OF b sg', of d]
    by (simp add: parse_loop_integer_overflow [OF ip big ns])
qed

lemma parse_invalid_character:
  assumes sg: "sg = [] \<or> sg = ''-'' \<or> sg = ''+''" and ip: "list_all is_digit ip"
    and f: "list_all is_digit (fraction_digits fp)"
    and d: "d \<le> 18" and n: "digits_value ip \<le> INT64_MAX"
    and c: "c \<noteq> CHR ''.''" "\<not> is_digit c"
    and first: "sg = [] \<and> ip = [] \<and> fp = None \<longrightarrow> c \<noteq> CHR ''-'' \<and> c \<noteq> CHR ''+''"
  shows "parse d (decimal_text sg ip fp @ c # rest) =
           Inl (invalid_argument ''Invalid character in number'')"
proof -
  let ?tail = "(case fp of None \<Rightarrow> [] | Some f \<Rightarrow> CHR ''.'' # f) @ c # rest"
  let ?body = "ip @ ?tail"
  have b: "?body \<noteq> []" by simp
  have "sg = [] \<longrightarrow> hd ?body \<noteq> CHR ''-'' \<and> hd ?body \<noteq> CHR ''+''"
  proof (cases "ip = [] \<and> fp = None")
    case True
    with first show ?thesis by simp
  next
    case False
    with body_head(2,3) [OF ip, of fp] show ?thesis
      by (cases ip; cases fp) simp_all
  qed
  with sg
  have sg': "sg = [] \<and> hd ?body \<noteq> CHR ''-'' \<and> hd ?body \<noteq> CHR ''+'' \<or> sg = ''-'' \<or> sg = ''+''"
    by blast
  have "parse d (sg @ ?body) = Inl (invalid_argument ''Invalid character in number'')"
    unfolding parse_unfold [OF b sg', of d]
    using parse_loop_body [OF ip f d n, of "c # rest"] c not_digit_invalid [OF c(2)]
    by simp
  then show ?thesis by (simp add: decimal_text_def)
qed

lemma parse_multiple_points:
  assumes sg: "sg = [] \<or> sg = ''-'' \<or> sg = ''+''" and ip: "list_all is_digit ip"
    and f: "list_all is_digit (fraction_digits fp)"
    and d: "d \<le> 18" and n: "digits_value ip \<le> INT64_MAX" and fp: "fp \<noteq> None"
  shows "parse d (decimal_text sg ip fp @ CHR ''.'' # rest) =
           Inl (invalid_argument ''Multiple decimal points'')"
proof -
  let ?tail = "(case fp of None \<Rightarrow> [] | Some f \<Rightarrow> CHR ''.'' # f) @ CHR ''.'' # rest"
  let ?body = "ip @ ?tail"
  have b: "?body \<noteq> []" by simp
  have "hd ?body \<noteq> CHR ''-'' \<and> hd ?body \<noteq> CHR ''+''"
    using body_head(2,3) [OF ip, of fp] fp by (cases ip; cases fp) simp_all
  with sg
  have sg': "sg = [] \<and> hd ?body \<noteq> CHR ''-'' \<and> hd ?body \<noteq> CHR ''+'' \<or> sg = ''-'' \<or> sg = ''+''"
    by blast
  have "parse d (sg @ ?body) = Inl (invalid_argument ''Multiple decimal points'')"
    unfolding parse_unfold [OF b sg', of d]
    using parse_loop_body [OF ip f d n, of "CHR ''.'' # rest"] fp
    by simp
  then show ?thesis by (simp add: decimal_text_def)
qed

section \<open>Rolling VWAP and trade-flow totals\<close>

lemma drop_snoc_tl:
  "k \<le> length ts \<Longrightarrow> tl (drop k ts @ [t]) = drop (Suc k) (ts @ [t])"
proof (cases "k < length ts")
  case True
  then have "drop k ts \<noteq> []" by simp
  then have "tl (drop k ts @ [t]) = tl (drop k ts) @ [t]" by simp
  also have "\<dots> = drop (Suc k) ts @ [t]" by (simp add: drop_Suc drop_tl)
  finally show ?thesis using True by simp
next
  case False
  then show ?thesis by simp
qed

lemma window_size_add_trade [simp]: "window_size (add_trade p q c) = window_size c"
  by (simp add: add_trade_def push_trade_def evict_oldest_def Let_def split: list.splits)

lemma window_inv_add_trade:
  assumes "window_inv ts c"
  shows "window_inv (ts @ [(p, q)]) (add_trade p q c)"
proof (cases "length ts < window_size c")
  case True
  with assms show ?thesis
    by (simp add: window_inv_def add_trade_def push_trade_def Let_def)
next
  case False
  then have k: "length ts - window_size c \<le> length ts" and
    len: "length (drop (length ts - window_size c) ts) = window_size c"
    by simp_all
  from False have s: "Suc (length ts) - window_size c = Suc (length ts - window_size c)"
    by simp
  obtain o1 o2 rest where d: "drop (length ts - window_size c) ts @ [(p, q)] = (o1, o2) # rest"
    by (cases "drop (length ts - window_size c) ts @ [(p, q)]") auto
  have rest: "rest = drop (Suc (length ts - window_size c)) (ts @ [(p, q)])"
    using drop_snoc_tl [OF k, of "(p, q)"] d by simp
  have sums: "(\<Sum>t\<leftarrow>drop (length ts - window_size c) ts. fst t * snd t) + p * q
                = o1 * o2 + (\<Sum>t\<leftarrow>rest. fst t * snd t)"
    "(\<Sum>t\<leftarrow>drop (length ts - window_size c) ts. snd t) + q = o2 + (\<Sum>t\<leftarrow>rest. snd t)"
    using arg_cong [OF d, of "\<lambda>xs. \<Sum>t\<leftarrow>xs. fst t * snd t"]
          arg_cong [OF d, of "\<lambda>xs. \<Sum>t\<leftarrow>xs. snd t"] by simp_all
  from assms False len d rest sums show ?thesis
    by (simp add: window_inv_def add_trade_def push_trade_def evict_oldest_def Let_def s
        del: drop_append)
qed

lemma window_inv_add_trades:
  "window_inv ts c \<Longrightarrow> window_inv (ts @ us) (add_trades us c)"
proof (induction us arbitrary: ts c)
  case Nil
  then show ?case by (simp add: add_trades_def)
next
  case (Cons u us)
  from window_inv_add_trade [OF Cons.prems, of "fst u" "snd u"]
  have "window_inv (ts @ [u]) (add_trade (fst u) (snd u) c)" by simp
  from Cons.IH [OF this] show ?case by (simp add: add_trades_def)
qed

lemma window_size_add_trades [simp]: "window_size (add_trades ts c) = window_size c"
  by (induction ts arbitrary: c) (simp_all add: add_trades_def)

lemma window_size_init [simp]: "window_size (VwapCalculator_init w) = w"
  by (simp add: VwapCalculator_init_def)

lemma window_size_clear [simp]: "window_size (vwap_clear c) = window_size c"
  by (simp add: vwap_clear_def)


lemma window_inv_clear: "window_inv [] (vwap_clear c)"
  by (simp add: window_inv_def vwap_clear_def)




lemma process_trades_snoc:
  "process_trades (ts @ [t]) f = process_trade t (process_trades ts f)"
  by (simp add: process_trades_def)

lemma process_trades_totals:
  "flow_buy_volume (process_trades ts f) =
     flow_buy_volume f + (\<Sum>t\<leftarrow>filter (\<lambda>t. \<not> is_buyer_maker t) ts. quantity t)
   \<and> flow_sell_volume (process_trades ts f) =
     flow_sell_volume f + (\<Sum>t\<leftarrow>filter is_buyer_maker ts. quantity t)
   \<and> flow_vwap (process_trades ts f) =
     add_trades (map (\<lambda>t. (price t, quantity t)) ts) (flow_vwap f)"
proof (induction ts rule: rev_induct)
  case Nil
  show ?case by (simp add: process_trades_def add_trades_def)
next
  case (snoc t ts)
  then show ?case
    by (simp add: process_trades_snoc process_trade_def Let_def add_trades_def)
qed

text \<open>
  Claim C10. After any trades \<open>ts\<close> processed since \<open>reset\<close> (or construction, which leaves
  the same state), \<open>total_buy_volume\<close> is the sum of the quantities of the trades with
  \<open>is_buyer_maker = false\<close>, \<open>total_sell_volume\<close> the sum over the others, both over all of
  \<open>ts\<close> whatever the window has evicted; \<open>net_flow\<close> is their difference; and the reported
  \<open>trade_count\<close> is \<open>min (length ts) W\<close>, at most the window size. With a window of 2 and
  three trades the totals count all three and the trade count is 2.
\<close>

theorem trade_flow_totals:
  "total_buy_volume (current_metrics (process_trades ts (flow_reset f))) =
     (\<Sum>t\<leftarrow>filter (\<lambda>t. \<not> is_buyer_maker t) ts. quantity t)
   \<and> total_sell_volume (current_metrics (process_trades ts (flow_reset f))) =
     (\<Sum>t\<leftarrow>filter is_buyer_maker ts. quantity t)
   \<and> net_flow (current_metrics (process_trades ts (flow_reset f))) =
     total_buy_volume (current_metrics (process_trades ts (flow_reset f)))
       - total_sell_volume (current_metrics (process_trades ts (flow_reset f)))
   \<and> metrics_trade_count (current_metrics (process_trades ts (flow_reset f))) =
       min (length ts) (window_size (flow_vwap f))
   \<and> metrics_trade_count (current_metrics (process_trades ts (flow_reset f))) \<le> window_size (flow_vwap f)
   \<and> flow_reset (TradeFlow_init w th) = TradeFlow_init w th
   \<and> total_buy_volume (current_metrics (process_trades
         [mk_trade 100 1 False, mk_trade 101 2 True, mk_trade 102 4 False] (TradeFlow_init 2 2))) = 5
   \<and> total_sell_volume (current_metrics (process_trades
         [mk_trade 100 1 False, mk_trade 101 2 True, mk_trade 102 4 False] (TradeFlow_init 2 2))) = 2
   \<and> metrics_trade_count (current_metrics (process_trades
         [mk_trade 100 1 False, mk_trade 101 2 True, mk_trade 102 4 False] (TradeFlow_init 2 2))) = 2"
proof -
  have general:
    "total_buy_volume (current_metrics (process_trades ts (flow_reset f))) =
       (\<Sum>t\<leftarrow>filter (\<lambda>t. \<not> is_buyer_maker t) ts. quantity t)
     \<and> total_sell_volume (current_metrics (process_trades ts (flow_reset f))) =
       (\<Sum>t\<leftarrow>filter is_buyer_maker ts. quantity t)
     \<and> metrics_trade_count (current_metrics (process_trades ts (flow_reset f))) =
         min (length ts) (window_size (flow_vwap f))" for ts f
  proof -
    let ?c = "vwap_clear (flow_vwap f)"
    let ?us = "map (\<lambda>t. (price t, quantity t)) ts"
    have inv: "window_inv ?us (add_trades ?us ?c)"
      using window_inv_add_trades [where ts = "[]" and c = "vwap_clear (flow_vwap f)" and us = ?us, OF window_inv_clear] by simp
    have ws: "window_size (add_trades ?us ?c) = window_size (flow_vwap f)"
      by simp
    have len: "length (trades (add_trades ?us ?c)) = min (length ts) (window_size (flow_vwap f))"
      using inv by (simp add: window_inv_def ws)
    show ?thesis
      using len by (simp add: current_metrics_def process_trades_totals flow_reset_def trade_count_def)
  qed
  have init: "flow_reset (TradeFlow_init w th) = TradeFlow_init w th" for w th
    by (simp add: flow_reset_def TradeFlow_init_def vwap_clear_def VwapCalculator_init_def)
  have ex: "total_buy_volume (current_metrics (process_trades
         [mk_trade 100 1 False, mk_trade 101 2 True, mk_trade 102 4 False] (TradeFlow_init 2 2))) = 5
   \<and> total_sell_volume (current_metrics (process_trades
         [mk_trade 100 1 False, mk_trade 101 2 True, mk_trade 102 4 False] (TradeFlow_init 2 2))) = 2
   \<and> metrics_trade_count (current_metrics (process_trades
         [mk_trade 100 1 False, mk_trade 101 2 True, mk_trade 102 4 False] (TradeFlow_init 2 2))) = 2"
    using general [of "[mk_trade 100 1 False, mk_trade 101 2 True, mk_trade 102 4 False]"
                      "TradeFlow_init 2 2"]
    by (simp add: init) (simp add: mk_trade_def TradeFlow_init_def VwapCalculator_init_def)
  show ?thesis
    using general [of ts f] init [of w th] ex
    by (simp add: current_metrics_def)
qed

section \<open>The order book's sides\<close>














lemma side_ok_Nil [simp]: "side_ok lt []"
  by (simp add: side_ok_def)


lemma foldl_bid_updates:
  "foldl (\<lambda>b lv. apply_bid_update (fst lv) (snd lv) b) book lvs =
     book\<lparr>book_bids := foldl (apply_side_update bid_lt) (book_bids book) lvs\<rparr>"
  by (induction lvs arbitrary: book) (simp_all add: apply_bid_update_def)

lemma foldl_ask_updates:
  "foldl (\<lambda>b lv. apply_ask_update (fst lv) (snd lv) b) book lvs =
     book\<lparr>book_asks := foldl (apply_side_update ask_lt) (book_asks book) lvs\<rparr>"
  by (induction lvs arbitrary: book) (simp_all add: apply_ask_update_def)

lemma ob_apply_update_eq:
  "ob_apply_update update book =
     book\<lparr>book_bids := foldl (apply_side_update bid_lt) (book_bids book) (bids update),
          book_asks := foldl (apply_side_update ask_lt) (book_asks book) (asks update),
          book_last_update_id := final_update_id update\<rparr>"
  by (simp add: ob_apply_update_def foldl_bid_updates foldl_ask_updates)




lemma imbalance_levels_step [simp]: "imbalance_levels (book_step book op) = imbalance_levels book"
  by (cases op) (simp_all add: ob_apply_snapshot_def ob_apply_update_eq ob_clear_def)


lemma imbalance_levels_foldl [simp]:
  "imbalance_levels (foldl book_step book ops) = imbalance_levels book"
  by (induction ops arbitrary: book) simp_all



lemma imbalance_levels_run [simp]: "imbalance_levels (run_book levels ops) = levels"
  by (simp add: run_book_def OrderBook_init_def)

section \<open>Imbalance\<close>





section \<open>The outcomes of parsing\<close>

text \<open>The empty string contains no digits, and \<open>parse\<close> returns zero for it instead of
  failing.\<close>

theorem parse_empty_string_counterexample:
  "parse 8 '''' = Inr 0"
  by (simp add: parse_def)

text \<open>
  Claim C5, as the source has it. Let \<open>d \<le> 18\<close> be the number of decimals, \<open>sg\<close> an optional
  sign, \<open>ip\<close> integer digits and \<open>fp\<close> an optional point with fraction digits. The empty
  string parses to zero. A sign alone, and a point without digits, fail with
  \<open>invalid_argument\<close>. A text with at least one digit whose value, scaled by \<open>10 ^ d\<close> and
  truncated towards zero, fits 64 bits parses to exactly that number: fraction digits
  beyond \<open>d\<close> are cut off, not rounded. It fails with \<open>overflow_error\<close> when the integer
  part exceeds \<open>INT64_MAX div 10 ^ d\<close>, by the final test when the integer part itself fits
  64 bits and by the test in the loop otherwise, whatever follows the integer digits. When
  the integer part fits 64 bits, a character that is neither a digit nor a point after a
  well-formed prefix fails with \<open>invalid_argument\<close>, and so does a second point. Nothing is
  said about an integer part equal to \<open>INT64_MAX div 10 ^ d\<close> whose fraction takes the value
  beyond \<open>INT64_MAX\<close>, nor about integer digits that reach \<open>INT64_MAX + 1\<close> or
  \<open>INT64_MAX + 2\<close> as a prefix value.
\<close>

theorem parse_outcomes:
  assumes d: "d \<le> 18" and sg: "sg = [] \<or> sg = ''-'' \<or> sg = ''+''"
    and ip: "list_all is_digit ip" and f: "list_all is_digit (fraction_digits fp)"
  shows "parse d [] = Inr 0
    \<and> parse d ''-'' = Inl (invalid_argument ''Invalid number format: sign only'')
    \<and> parse d ''+'' = Inl (invalid_argument ''Invalid number format: sign only'')
    \<and> parse d (sg @ ''.'') = Inl (invalid_argument ''No digits found in number'')
    \<and> ((ip \<noteq> [] \<or> fraction_digits fp \<noteq> []) \<and>
        \<bar>trunc (decimal_value sg ip fp * 10 ^ d)\<bar> \<le> INT64_MAX \<longrightarrow>
          parse d (decimal_text sg ip fp) = Inr (trunc (decimal_value sg ip fp * 10 ^ d)))
    \<and> ((ip \<noteq> [] \<or> fraction_digits fp \<noteq> []) \<and>
        INT64_MAX div scale d < digits_value ip \<and> digits_value ip \<le> INT64_MAX \<longrightarrow>
          parse d (decimal_text sg ip fp) =
            Inl (overflow_error ''Value too large for fixed-point representation''))
    \<and> (INT64_MAX < digits_value ip \<and> \<not> reaches_wrap ip \<longrightarrow>
          (\<forall>rest. parse d (sg @ ip @ rest) =
                    Inl (overflow_error ''Integer part overflow during parse'')))
    \<and> (digits_value ip \<le> INT64_MAX \<longrightarrow>
          (\<forall>c rest. c \<noteq> CHR ''.'' \<and> \<not> is_digit c \<and>
                     (sg = [] \<and> ip = [] \<and> fp = None \<longrightarrow> c \<noteq> CHR ''-'' \<and> c \<noteq> CHR ''+'') \<longrightarrow>
             parse d (decimal_text sg ip fp @ c # rest) =
               Inl (invalid_argument ''Invalid character in number'')))
    \<and> (digits_value ip \<le> INT64_MAX \<and> fp \<noteq> None \<longrightarrow>
          (\<forall>rest. parse d (decimal_text sg ip fp @ CHR ''.'' # rest) =
                    Inl (invalid_argument ''Multiple decimal points'')))"
proof (intro conjI impI allI)
  show "parse d [] = Inr 0" by (rule parse_empty)
  show "parse d ''-'' = Inl (invalid_argument ''Invalid number format: sign only'')"
    by (rule parse_sign_only)
  show "parse d ''+'' = Inl (invalid_argument ''Invalid number format: sign only'')"
    by (rule parse_sign_only)
  show "parse d (sg @ ''.'') = Inl (invalid_argument ''No digits found in number'')"
    by (rule parse_no_digits [OF sg])
next
  assume a: "(ip \<noteq> [] \<or> fraction_digits fp \<noteq> []) \<and>
             \<bar>trunc (decimal_value sg ip fp * 10 ^ d)\<bar> \<le> INT64_MAX"
  with sg ip f have "well_formed sg ip fp" by (simp add: well_formed_def)
  with a d show "parse d (decimal_text sg ip fp) = Inr (trunc (decimal_value sg ip fp * 10 ^ d))"
    by (intro parse_decimal_text) simp_all
next
  assume "(ip \<noteq> [] \<or> fraction_digits fp \<noteq> []) \<and>
          INT64_MAX div scale d < digits_value ip \<and> digits_value ip \<le> INT64_MAX"
  with sg ip f d show "parse d (decimal_text sg ip fp) =
            Inl (overflow_error ''Value too large for fixed-point representation'')"
    by (intro parse_value_too_large) simp_all
next
  fix rest
  assume "INT64_MAX < digits_value ip \<and> \<not> reaches_wrap ip"
  with sg ip show "parse d (sg @ ip @ rest) =
                    Inl (overflow_error ''Integer part overflow during parse'')"
    by (intro parse_integer_overflow) simp_all
next
  fix c rest
  assume "digits_value ip \<le> INT64_MAX"
    and "c \<noteq> CHR ''.'' \<and> \<not> is_digit c \<and>
         (sg = [] \<and> ip = [] \<and> fp = None \<longrightarrow> c \<noteq> CHR ''-'' \<and> c \<noteq> CHR ''+'')"
  with sg ip f d show "parse d (decimal_text sg ip fp @ c # rest) =
               Inl (invalid_argument ''Invalid character in number'')"
    by (intro parse_invalid_character) simp_all
next
  fix rest
  assume "digits_value ip \<le> INT64_MAX \<and> fp \<noteq> None"
  with sg ip f d show "parse d (decimal_text sg ip fp @ CHR ''.'' # rest) =
                    Inl (invalid_argument ''Multiple decimal points'')"
    by (intro parse_multiple_points) simp_all
qed

theorem parse_outcomes_witness:
  "parse 8 ''-42150.505'' = Inr (- 4215050500000)
   \<and> parse 8 ''1.123456789999'' = Inr 112345678
   \<and> parse 8 ''-.'' = Inl (invalid_argument ''No digits found in number'')
   \<and> parse 8 ''92233720369.5'' = Inl (overflow_error ''Value too large for fixed-point representation'')
   \<and> parse 8 ''99999999999999999999.5x'' = Inl (overflow_error ''Integer part overflow during parse'')
   \<and> parse 8 ''42.15abc'' = Inl (invalid_argument ''Invalid character in number'')
   \<and> parse 8 ''42.15.50'' = Inl (invalid_argument ''Multiple decimal points'')"
proof -
  have d: "(8::nat) \<le> 18" by simp
  have dig: "list_all is_digit ''42150''" "list_all is_digit ''505''" "list_all is_digit ''1''"
    "list_all is_digit ''123456789999''" "list_all is_digit ''92233720369''"
    "list_all is_digit ''5''" "list_all is_digit ''99999999999999999999''"
    "list_all is_digit ''42''" "list_all is_digit ''15''" "list_all is_digit []"
    by code_simp+
  have v1: "trunc (decimal_value ''-'' ''42150'' (Some ''505'') * 10 ^ 8) = - 4215050500000"
    by code_simp
  have v2: "trunc (decimal_value [] ''1'' (Some ''123456789999'') * 10 ^ 8) = 112345678"
    by code_simp
  have n3: "INT64_MAX div scale 8 < digits_value ''92233720369''"
    "digits_value ''92233720369'' \<le> INT64_MAX" by code_simp+
  have n4: "INT64_MAX < digits_value ''99999999999999999999''"
    "\<not> reaches_wrap ''99999999999999999999''" by code_simp+
  have n5: "digits_value ''42'' \<le> INT64_MAX" "\<not> is_digit CHR ''a''" by code_simp+
  note t1 = parse_outcomes [OF d, of "''-''" "''42150''" "Some ''505''"]
  note t2 = parse_outcomes [OF d, of "[]" "''1''" "Some ''123456789999''"]
  note t3 = parse_outcomes [OF d, of "[]" "''92233720369''" "Some ''5''"]
  note t4 = parse_outcomes [OF d, of "[]" "''99999999999999999999''" "None"]
  note t5 = parse_outcomes [OF d, of "[]" "''42''" "Some ''15''"]
  show ?thesis
    using t1 t2 t3 t4 t5 dig v1 v2 n3 n4 n5
    by (simp add: fraction_digits_def decimal_text_def INT64_MAX_def)
qed

section \<open>Price keys\<close>






section \<open>Broadcast\<close>







section \<open>The SPSC ring as a bounded FIFO\<close>

lemma slot_index:
  assumes "m \<le> 64" and "length (slots q) = 2 ^ m"
  shows "unat (and (of_nat p :: 64 word) (kMask q)) = p mod 2 ^ m"
proof -
  have "kMask q = (mask m :: 64 word)"
    using assms by (simp add: kMask_def capacity_def mask_eq_exp_minus_1 of_nat_diff)
  then have "unat (and (of_nat p :: 64 word) (kMask q)) = unat (take_bit m (of_nat p :: 64 word))"
    by (simp add: take_bit_eq_mask)
  also have "\<dots> = take_bit m (take_bit 64 p)"
    by (simp add: unsigned_take_bit_eq unsigned_of_nat)
  also have "\<dots> = p mod 2 ^ 64 mod 2 ^ m"
    by (simp only: take_bit_eq_mod)
  also have "\<dots> = p mod 2 ^ m"
    using assms(1) by (intro mod_mod_cancel le_imp_power_dvd)
  finally show ?thesis .
qed

lemma position_distinct_le:
  fixes h k k' n :: nat
  assumes "k \<le> k'" and "k' < n" and "(h + k) mod n = (h + k') mod n"
  shows "k = k'"
proof -
  from assms(1) have "h + k \<le> h + k'" by simp
  from mod_eq_dvd_iff_nat [OF this, of n] assms(3) have "n dvd (h + k') - (h + k)" by simp
  then have "n dvd k' - k" by simp
  moreover from assms(2) have "k' - k < n" by simp
  ultimately have "k' - k = 0" by (meson dvd_imp_le not_le zero_less_iff_neq_zero)
  with assms(1) show ?thesis by simp
qed

lemma position_distinct:
  fixes h k k' n :: nat
  assumes "k < n" and "k' < n" and "(h + k) mod n = (h + k') mod n"
  shows "k = k'"
proof (cases "k \<le> k'")
  case True
  from position_distinct_le [OF True assms(2,3)] show ?thesis .
next
  case False
  then have "k' \<le> k" by simp
  from position_distinct_le [OF this assms(1) assms(3) [symmetric]] show ?thesis by simp
qed


lemma word_of_nat_shift_neq:
  fixes h a b :: nat
  assumes "a < 2 ^ 64" and "b < 2 ^ 64" and "a \<noteq> b"
  shows "(of_nat (h + a) :: 64 word) \<noteq> of_nat (h + b)"
proof
  assume "(of_nat (h + a) :: 64 word) = of_nat (h + b)"
  then have "(h + a) mod 2 ^ 64 = (h + b) mod 2 ^ 64"
    unfolding word_of_nat_eq_iff take_bit_eq_mod by simp
  from position_distinct [OF assms(1,2) this] assms(3) show False by simp
qed

lemma represents_init:
  "represents m (SpscQueue_init (2 ^ m)) 0 []"
  by (simp add: represents_def SpscQueue_init_def ring_slot_def)

lemma try_push_not_full:
  assumes rep: "represents m q h xs" and m: "m \<le> 64" and n: "length xs < 2 ^ m"
  shows "\<exists>q'. try_push v q = (True, q') \<and> represents m q' h (xs @ [v])"
proof -
  let ?n = "length xs" and ?N = "(2::nat) ^ m"
  let ?i = "(h + ?n) mod ?N"
  from rep have len: "length (slots q) = ?N" and hd: "head q = of_nat h"
    and tl: "tail q = of_nat (h + ?n)"
    and sl: "\<And>k. k < ?N \<Longrightarrow> slots q ! ((h + k) mod ?N) = ring_slot h xs k"
    by (simp_all add: represents_def)
  have i: "unat (and (tail q) (kMask q)) = ?i"
    unfolding tl by (rule slot_index [OF m len])
  have ilt: "?i < length (slots q)" by (simp add: len)
  from sl [OF n] have seq: "sequence (slots q ! ?i) = tail q"
    by (simp add: ring_slot_def tl)
  let ?q = "q\<lparr>slots := (slots q)[?i := \<lparr>sequence = tail q + 1, storage = Some v\<rparr>],
              tail := tail q + 1\<rparr>"
  have push: "try_push v q = (True, ?q)"
    using seq by (simp add: try_push_def Let_def i)
  have "slots ?q ! ((h + k) mod ?N) = ring_slot h (xs @ [v]) k" if k: "k < ?N" for k
  proof (cases "k = ?n")
    case True
    with ilt show ?thesis by (simp add: ring_slot_def tl)
  next
    case False
    with position_distinct [OF k n] have "(h + k) mod ?N \<noteq> ?i" by blast
    then have "slots ?q ! ((h + k) mod ?N) = ring_slot h xs k"
      using sl [OF k] by simp
    also have "\<dots> = ring_slot h (xs @ [v]) k"
      using False by (auto simp add: ring_slot_def nth_append)
    finally show ?thesis .
  qed
  with len hd tl n have "represents m ?q h (xs @ [v])"
    by (simp add: represents_def)
  with push show ?thesis by blast
qed

lemma try_push_full:
  assumes rep: "represents m q h xs" and m: "1 \<le> m" "m \<le> 63" and n: "length xs = 2 ^ m"
  shows "try_push v q = (False, q)"
proof -
  let ?N = "(2::nat) ^ m"
  from rep have len: "length (slots q) = ?N"
    and tl: "tail q = of_nat (h + length xs)"
    and sl: "\<And>k. k < ?N \<Longrightarrow> slots q ! ((h + k) mod ?N) = ring_slot h xs k"
    by (simp_all add: represents_def)
  from m have m64: "m \<le> 64" by simp
  have i: "unat (and (tail q) (kMask q)) = h mod ?N"
    unfolding tl using slot_index [OF m64 len, of "h + length xs"] by (simp add: n)
  from sl [of 0] n have seq: "sequence (slots q ! (h mod ?N)) = of_nat (h + 1)"
    by (simp add: ring_slot_def)
  have "(2::nat) ^ m < 2 ^ 64" using m(2) by (intro power_strict_increasing) simp_all
  moreover have "(1::nat) \<noteq> 2 ^ m" using m(1) by (cases m) simp_all
  ultimately have "(of_nat (h + 1) :: 64 word) \<noteq> of_nat (h + 2 ^ m)"
    by (intro word_of_nat_shift_neq) simp_all
  with seq have "sequence (slots q ! (h mod ?N)) \<noteq> tail q"
    unfolding tl n by simp
  then show ?thesis
    by (simp add: try_push_def Let_def i)
qed

lemma try_pop_empty:
  assumes rep: "represents m q h []" and m: "m \<le> 64"
  shows "try_pop q = (None, q)"
proof -
  let ?N = "(2::nat) ^ m"
  from rep have len: "length (slots q) = ?N" and hd: "head q = of_nat h"
    and sl: "\<And>k. k < ?N \<Longrightarrow> slots q ! ((h + k) mod ?N) = ring_slot h [] k"
    by (simp_all add: represents_def)
  have i: "unat (and (head q) (kMask q)) = h mod ?N"
    unfolding hd by (rule slot_index [OF m len])
  from sl [of 0] have seq: "sequence (slots q ! (h mod ?N)) = of_nat h"
    by (simp add: ring_slot_def)
  from seq have "sequence (slots q ! (h mod ?N)) = head q" by (simp only: hd)
  then show ?thesis
    by (simp add: try_pop_def Let_def i)
qed

lemma try_pop_not_empty:
  assumes rep: "represents m q h (y # ys)" and m: "m \<le> 64"
  shows "\<exists>q'. try_pop q = (Some y, q') \<and> represents m q' (Suc h) ys"
proof -
  let ?N = "(2::nat) ^ m"
  let ?i = "h mod ?N"
  from rep have len: "length (slots q) = ?N" and hd: "head q = of_nat h"
    and tl: "tail q = of_nat (h + Suc (length ys))" and n: "Suc (length ys) \<le> ?N"
    and sl: "\<And>k. k < ?N \<Longrightarrow> slots q ! ((h + k) mod ?N) = ring_slot h (y # ys) k"
    by (simp_all add: represents_def)
  have i: "unat (and (head q) (kMask q)) = ?i"
    unfolding hd by (rule slot_index [OF m len])
  have ilt: "?i < length (slots q)" by (simp add: len)
  from sl [of 0] have slot: "slots q ! ?i = \<lparr>sequence = of_nat (h + 1), storage = Some y\<rparr>"
    by (simp add: ring_slot_def)
  let ?q = "q\<lparr>slots := (slots q)[?i := \<lparr>sequence = head q + of_nat (capacity q), storage = None\<rparr>],
              head := head q + 1\<rparr>"
  from slot have "sequence (slots q ! ?i) = head q + 1" "storage (slots q ! ?i) = Some y"
    by (simp_all add: hd)
  then have pop: "try_pop q = (Some y, ?q)"
    by (simp add: try_pop_def Let_def i)
  have "slots ?q ! ((Suc h + k) mod ?N) = ring_slot (Suc h) ys k" if k: "k < ?N" for k
  proof (cases "Suc k = ?N")
    case True
    then have "(Suc h + k) mod ?N = ?i" by (metis add_Suc_shift mod_add_self2)
    moreover from True n have "\<not> k < length ys" by simp
    moreover have "(2 ^ m :: 64 word) = 1 + of_nat k"
      using arg_cong [OF True, of "of_nat :: nat \<Rightarrow> 64 word"] by simp
    ultimately show ?thesis
      using ilt by (simp add: ring_slot_def hd capacity_def len)
  next
    case False
    with k have sk: "Suc k < ?N" by simp
    have "(h + Suc k) mod ?N \<noteq> (h + 0) mod ?N"
      using position_distinct [OF sk, of 0 h] by auto
    then have "slots ?q ! ((h + Suc k) mod ?N) = ring_slot h (y # ys) (Suc k)"
      using sl [OF sk] by simp
    also have "\<dots> = ring_slot (Suc h) ys k"
      by (simp add: ring_slot_def)
    finally show ?thesis by simp
  qed
  with len hd tl n have "represents m ?q (Suc h) ys"
    by (simp add: represents_def)
  with pop show ?thesis by blast
qed

lemma queue_run_refines:
  assumes "1 \<le> m" and "m \<le> 63" and "represents m q h xs"
  shows "queue_run ops q = fifo_run (2 ^ m) ops xs"
  using assms(3)
proof (induction ops arbitrary: q h xs)
  case Nil
  show ?case by simp
next
  case (Cons op ops)
  from assms(2) have m64: "m \<le> 64" by simp
  from Cons.prems have le: "length xs \<le> 2 ^ m" by (simp add: represents_def)
  show ?case
  proof (cases op)
    case (Push v)
    show ?thesis
    proof (cases "length xs < 2 ^ m")
      case True
      from try_push_not_full [OF Cons.prems m64 True, of v]
      obtain q' where "try_push v q = (True, q')" and "represents m q' h (xs @ [v])" by blast
      with Cons.IH [of q' h "xs @ [v]"] True Push show ?thesis by simp
    next
      case False
      with le have full: "length xs = 2 ^ m" by simp
      from try_push_full [OF Cons.prems assms(1,2) full, of v] Cons.IH [OF Cons.prems] False Push
      show ?thesis by simp
    qed
  next
    case Pop
    show ?thesis
    proof (cases xs)
      case Nil
      with try_pop_empty [OF _ m64, of q h] Cons.prems Cons.IH [of q h "[]"] Pop
      show ?thesis by simp
    next
      case (Cons y ys)
      with try_pop_not_empty [OF _ m64, of q h y ys] Cons.prems
      obtain q' where "try_pop q = (Some y, q')" and "represents m q' (Suc h) ys" by blast
      with Cons.IH [of q' "Suc h" ys] Cons Pop show ?thesis by simp
    qed
  qed
qed

text \<open>For every capacity \<open>2 ^ m\<close> with \<open>1 \<le> m \<le> 63\<close> the ring, started empty, answers every
  sequence of pushes and pops as the bounded FIFO of that capacity does: a push succeeds
  exactly when fewer than \<open>2 ^ m\<close> elements are stored, and pops return the pushed values
  once each, in order, and nothing on an empty queue.\<close>

lemma spsc_is_bounded_fifo:
  assumes "1 \<le> m" and "m \<le> 63"
  shows "queue_run ops (SpscQueue_init (2 ^ m)) = fifo_run (2 ^ m) ops []"
  by (rule queue_run_refines [OF assms represents_init])

text \<open>
  Claim C7 fails for the capacity 1, which is a power of two and passes both
  \<open>static_assert\<close>s. After one push the single slot has sequence 1, which is also the next
  value of \<open>tail_\<close>: the second push finds \<open>seq = pos\<close>, reports success and overwrites the
  stored element, and the pop then finds sequence 2 instead of 1 and reports an empty
  queue. The bounded FIFO of capacity 1 refuses the second push and pops the first element.
\<close>

theorem capacity_one_full_push_accepted:
  "queue_run [Push ''a'', Push ''b'', Pop] (SpscQueue_init 1) = [Pushed True, Pushed True, Popped None]
   \<and> fifo_run 1 [Push ''a'', Push ''b'', Pop] [] = [Pushed True, Pushed False, Popped (Some ''a'')]"
  by (simp add: SpscQueue_init_def try_push_def try_pop_def kMask_def capacity_def)

section \<open>Multiplication through \<open>double\<close> (core/fixed_point.hpp)\<close>

subsection \<open>Rounding to a 53-bit significand\<close>

text \<open>
  \<open>binary_exponent x\<close> is the exponent of the leading bit of \<open>x\<close>, so the significand
  \<open>x / 2 powi (binary_exponent x - 52)\<close> has 53 bits before the point. A number that is an
  integer multiple of that unit converts exactly, and any other moves by at most half the
  unit.
\<close>

lemma binary_exponent_lower:
  assumes "x \<noteq> 0"
  shows "2 powi (binary_exponent x) \<le> \<bar>x\<bar>"
proof -
  obtain n d where nd: "quotient_of \<bar>x\<bar> = (n, d)" by (cases "quotient_of \<bar>x\<bar>")
  then have d: "d > 0" and x: "\<bar>x\<bar> = of_int n / of_int d"
    by (simp_all add: quotient_of_denom_pos quotient_of_div)
  from assms have "\<bar>x\<bar> > 0" by simp
  with x d have n: "n > 0" by (simp add: zero_less_divide_iff)
  let ?t = "bitlen n - bitlen d"
  show ?thesis
  proof (cases "2 powi ?t \<le> \<bar>x\<bar>")
    case True
    then show ?thesis by (simp add: binary_exponent_def nd)
  next
    case False
    from bitlen_bounds [OF n] bitlen_bounds [OF d]
    have nb: "2 ^ nat (bitlen n - 1) \<le> n" and db: "d < 2 ^ nat (bitlen d)" by simp_all
    from n d have bn: "bitlen n \<ge> 1" and bd: "bitlen d \<ge> 1"
      by (simp_all add: bitlen_alt_def)
    have "(2::rat) powi (?t - 1) = 2 powi (bitlen n - 1) / 2 powi (bitlen d)"
      by (simp add: power_int_diff)
    also have "\<dots> = 2 ^ nat (bitlen n - 1) / 2 ^ nat (bitlen d)"
      using bn bd by (simp add: power_int_def)
    also have "\<dots> \<le> of_int n / 2 ^ nat (bitlen d)"
    proof -
      from nb have "(of_int (2 ^ nat (bitlen n - 1)) :: rat) \<le> of_int n"
        by (simp only: of_int_le_iff)
      then show ?thesis by (simp add: divide_right_mono)
    qed
    also have "\<dots> \<le> of_int n / of_int d"
    proof -
      from db have "(of_int d :: rat) \<le> of_int (2 ^ nat (bitlen d))"
        by (simp only: of_int_le_iff)
      with d n show ?thesis by (simp add: frac_le)
    qed
    finally have low: "(2::rat) powi (?t - 1) \<le> of_int n / of_int d" .
    from False have be: "binary_exponent x = ?t - 1"
      by (simp add: binary_exponent_def nd Let_def)
    from low show ?thesis by (simp only: be x)
  qed
qed

lemma binary_exponent_upper:
  assumes "x \<noteq> 0" and "\<bar>x\<bar> < 2 powi (t + 1)"
  shows "binary_exponent x \<le> t"
proof (rule ccontr)
  assume "\<not> binary_exponent x \<le> t"
  then have "t + 1 \<le> binary_exponent x" by simp
  then have "(2::rat) powi (t + 1) \<le> 2 powi (binary_exponent x)"
    by (intro power_int_increasing) simp_all
  with binary_exponent_lower [OF assms(1)] assms(2) show False by simp
qed

lemma round_half_even_of_int [simp]: "round_half_even (of_int n) = n"
  by (simp add: round_half_even_def)

lemma round_half_even_error: "\<bar>of_int (round_half_even y) - y\<bar> \<le> 1 / 2"
proof -
  define r where "r = y - of_int \<lfloor>y\<rfloor>"
  have r: "0 \<le> r" "r < 1" unfolding r_def by linarith+
  have y: "y = of_int \<lfloor>y\<rfloor> + r" by (simp add: r_def)
  consider "r < 1 / 2" | "r > 1 / 2" | "r = 1 / 2" by linarith
  then show ?thesis
  proof cases
    case 1
    then have "round_half_even y = \<lfloor>y\<rfloor>"
      by (simp add: round_half_even_def Let_def r_def)
    then have "of_int (round_half_even y) - y = - r" by (simp add: r_def)
    with 1 r show ?thesis by (simp add: abs_if)
  next
    case 2
    then have "round_half_even y = \<lfloor>y\<rfloor> + 1"
      by (simp add: round_half_even_def Let_def r_def)
    then have "of_int (round_half_even y) - y = 1 - r" by (simp add: r_def)
    with 2 r show ?thesis by (simp add: abs_if)
  next
    case 3
    then have "round_half_even y = \<lfloor>y\<rfloor> \<or> round_half_even y = \<lfloor>y\<rfloor> + 1"
      by (simp add: round_half_even_def Let_def r_def)
    then have "of_int (round_half_even y) - y = - r \<or> of_int (round_half_even y) - y = 1 - r"
      by (auto simp add: r_def)
    with 3 show ?thesis by (auto simp add: abs_if)
  qed
qed

lemma round_to_double_exact:
  assumes "x = of_int n * 2 powi e'" and "binary_exponent x - 52 \<le> e'"
  shows "round_to_double x = x"
proof (cases "x = 0")
  case True
  then show ?thesis by (simp add: round_to_double_def)
next
  case False
  define e where "e = binary_exponent x - 52"
  have pos: "(2::rat) powi e \<noteq> 0" by simp
  have "e' = e + int (nat (e' - e))" using assms(2) by (simp add: e_def)
  then have "(2::rat) powi e' = 2 powi e * 2 ^ nat (e' - e)"
    by (metis power_int_add power_int_of_nat zero_neq_numeral)
  with assms(1) have "x = of_int (n * 2 ^ nat (e' - e)) * 2 powi e"
    by (simp add: mult.assoc mult.commute)
  then have q: "x / 2 powi e = of_int (n * 2 ^ nat (e' - e))"
    using pos by (simp add: nonzero_eq_divide_eq)
  then have "of_int (round_half_even (x / 2 powi e)) = x / 2 powi e"
    by (simp only: round_half_even_of_int)
  then have "of_int (round_half_even (x / 2 powi e)) * 2 powi e = x"
    using pos by simp
  with False show ?thesis by (simp add: round_to_double_def Let_def e_def)
qed

lemma round_to_double_error:
  assumes "x \<noteq> 0"
  shows "\<bar>round_to_double x - x\<bar> \<le> 2 powi (binary_exponent x - 53)"
proof -
  let ?e = "binary_exponent x - 52"
  let ?y = "x / 2 powi ?e"
  have pos: "(2::rat) powi ?e > 0" by (simp add: zero_less_power_int)
  have "round_to_double x - x = (of_int (round_half_even ?y) - ?y) * 2 powi ?e"
    using assms by (simp add: round_to_double_def Let_def algebra_simps)
  then have "\<bar>round_to_double x - x\<bar> = \<bar>of_int (round_half_even ?y) - ?y\<bar> * 2 powi ?e"
    using pos by (simp add: abs_mult)
  also have "\<dots> \<le> 1 / 2 * 2 powi ?e"
    using round_half_even_error [of ?y] pos by (intro mult_right_mono) simp_all
  also have "\<dots> = 2 powi (binary_exponent x - 53)"
  proof -
    have "binary_exponent x - 53 = ?e + (- 1)" by simp
    then have "(2::rat) powi (binary_exponent x - 53) = 2 powi ?e * 2 powi (- 1)"
      by (metis power_int_add zero_neq_numeral)
    then show ?thesis by (simp add: power_int_minus)
  qed
  finally show ?thesis .
qed


lemma round_to_double_int:
  assumes "\<bar>n\<bar> < 2 ^ 53"
  shows "round_to_double (of_int n) = of_int n"
proof (cases "n = 0")
  case True
  then show ?thesis by (simp add: round_to_double_def)
next
  case False
  from assms have "(of_int \<bar>n\<bar> :: rat) < of_int (2 ^ 53)" by (simp only: of_int_less_iff)
  then have "\<bar>of_int n :: rat\<bar> < 2 powi (52 + 1)" by simp
  with False have "binary_exponent (of_int n) \<le> 52"
    by (intro binary_exponent_upper) simp_all
  then have "binary_exponent (of_int n) - 52 \<le> 0" by simp
  moreover have "(of_int n :: rat) = of_int n * 2 powi 0" by simp
  ultimately show ?thesis using round_to_double_exact [of "of_int n" n 0] by simp
qed

lemma round_to_double_scale:
  assumes "decimals \<le> 18"
  shows "round_to_double (of_int (scale decimals)) = of_int (scale decimals)"
proof -
  define x :: rat where "x = of_int (scale decimals)"
  have "(10::rat) ^ decimals = (5 * 2) ^ decimals" by simp
  also have "\<dots> = 5 ^ decimals * 2 ^ decimals" by (rule power_mult_distrib)
  finally have x: "x = of_int (5 ^ decimals) * 2 powi (int decimals)"
    by (simp add: x_def scale_def)
  have "(5::int) ^ decimals \<le> 5 ^ 18" using assms by (intro power_increasing) simp_all
  then have "(5::int) ^ decimals < 2 ^ 53" by simp
  then have "(of_int (5 ^ decimals) :: rat) < of_int (2 ^ 53)" by (simp only: of_int_less_iff)
  then have "(of_int (5 ^ decimals) :: rat) * 2 ^ decimals < of_int (2 ^ 53) * 2 ^ decimals"
    by (intro mult_strict_right_mono) simp_all
  also have "\<dots> = 2 powi (52 + int decimals + 1)"
    by (simp add: power_int_add)
  finally have "\<bar>x\<bar> < 2 powi (52 + int decimals + 1)" by (simp add: x)
  moreover have "x \<noteq> 0" by (simp add: x_def scale_def)
  ultimately have "binary_exponent x \<le> 52 + int decimals" by (intro binary_exponent_upper)
  then have "binary_exponent x - 52 \<le> int decimals" by simp
  with x have "round_to_double x = x" by (rule round_to_double_exact)
  then show ?thesis by (simp add: x_def)
qed

subsection \<open>Products below \<open>2 ^ 53\<close>\<close>

text \<open>
  \<open>std::round\<close> of a number strictly between \<open>k - 1/2\<close> and \<open>k + 1/2\<close> is \<open>k\<close>. For a scale
  \<open>10 ^ D\<close> with \<open>D \<ge> 1\<close> the exact quotient \<open>p / 10 ^ D\<close> is a multiple of \<open>1/2\<close>, which the
  division returns exactly, or it is at least \<open>1 / 10 ^ D\<close> away from every odd multiple of
  \<open>1/2\<close>, which is more than the rounding of the division can move it when
  \<open>\<bar>p\<bar> < 2 ^ 53\<close>.
\<close>

lemma std_round_near:
  assumes "of_int k - 1 / 2 < x" and "x < of_int k + 1 / 2"
  shows "std_round x = k"
proof (cases "x \<ge> 0")
  case True
  have "\<lfloor>x + 1 / 2\<rfloor> = k" using assms by (intro floor_unique) simp_all
  with True show ?thesis by (simp add: std_round_def)
next
  case False
  have "\<lfloor>- x + 1 / 2\<rfloor> = - k" using assms by (intro floor_unique) simp_all
  with False show ?thesis by (simp add: std_round_def)
qed

lemma std_round_of_int: "std_round (of_int n) = n"
  by (rule std_round_near) simp_all

lemma std_round_bounds:
  "of_int (std_round x) - 1 / 2 \<le> x" "x \<le> of_int (std_round x) + 1 / 2"
  unfolding std_round_def by (simp; linarith)+

lemma round_to_double_product:
  assumes "\<bar>a * b\<bar> < (2::int) ^ 53"
  shows "round_to_double (round_to_double (of_int a) * round_to_double (of_int b)) = of_int (a * b)"
proof (cases "a = 0 \<or> b = 0")
  case True
  then show ?thesis by (auto simp add: round_to_double_def)
next
  case False
  then have "1 \<le> \<bar>a\<bar>" "1 \<le> \<bar>b\<bar>" by linarith+
  then have "\<bar>a\<bar> \<le> \<bar>a\<bar> * \<bar>b\<bar>" "\<bar>b\<bar> \<le> \<bar>a\<bar> * \<bar>b\<bar>"
    by (simp_all add: mult_le_cancel_left1 mult_le_cancel_right1)
  with assms have "\<bar>a\<bar> < 2 ^ 53" "\<bar>b\<bar> < 2 ^ 53" by (simp_all add: abs_mult)
  then have "round_to_double (of_int a) = of_int a" "round_to_double (of_int b) = of_int b"
    by (simp_all only: round_to_double_int)
  then have "round_to_double (round_to_double (of_int a) * round_to_double (of_int b))
      = round_to_double (of_int (a * b))" by simp
  also have "\<dots> = of_int (a * b)" using assms by (rule round_to_double_int)
  finally show ?thesis .
qed


lemma quotient_rounding:
  assumes D: "1 \<le> decimals" "decimals \<le> 18" and p: "\<bar>p\<bar> < (2::int) ^ 53"
  shows "std_round (round_to_double (of_int p / of_int (scale decimals)))
       = std_round (of_int p / of_int (scale decimals))"
proof -
  define S2 :: int where "S2 = 5 * 10 ^ (decimals - 1)"
  have S: "scale decimals = 2 * S2"
  proof -
    from D have "decimals = Suc (decimals - 1)" by simp
    then have "(10::int) ^ decimals = 10 * 10 ^ (decimals - 1)" by (metis power_Suc)
    then show ?thesis by (simp add: scale_def S2_def)
  qed
  have "(1::int) \<le> 10 ^ (decimals - 1)" by simp
  then have S2: "5 \<le> S2" unfolding S2_def by linarith
  define T :: rat where "T = of_int (2 * S2)"
  have T: "10 \<le> T" 
  proof -
    from S2 have "10 \<le> 2 * S2" by simp
    then have "(of_int 10 :: rat) \<le> of_int (2 * S2)" by (simp only: of_int_le_iff)
    then show ?thesis by (simp add: T_def)
  qed
  define q :: rat where "q = of_int p / T"
  define k where "k = std_round q"
  define d :: rat where "d = 1 / T"
  have d: "0 < d" using T by (simp add: d_def)
  have qT: "q * T = of_int p" using T by (simp add: q_def)
  have absq: "\<bar>q\<bar> * T = of_int \<bar>p\<bar>"
  proof -
    from qT have "\<bar>q * T\<bar> = \<bar>of_int p\<bar>" by simp
    with T show ?thesis by (simp add: abs_mult)
  qed
  from p have "(of_int \<bar>p\<bar> :: rat) < of_int (2 ^ 53)" by (simp only: of_int_less_iff)
  then have p53: "(of_int \<bar>p\<bar> :: rat) < 2 ^ 53" by simp
  have "\<bar>q\<bar> * 10 \<le> \<bar>q\<bar> * T" using T by (intro mult_left_mono) simp_all
  with absq p53 have "\<bar>q\<bar> * 10 < 2 ^ 53" by simp
  then have lt52: "\<bar>q\<bar> < 2 ^ 52" by simp
  have "std_round (round_to_double q) = std_round q"
  proof (cases "\<exists>j. q = of_int j / 2")
    case True
    then obtain j where j: "q = of_int j / 2" ..
    have "round_to_double q = q"
    proof (cases "q = 0")
      case True
      then show ?thesis by (simp add: round_to_double_def)
    next
      case False
      have "\<bar>q\<bar> < 2 powi (51 + 1)" using lt52 by simp
      with False have "binary_exponent q \<le> 51" by (intro binary_exponent_upper)
      then have "binary_exponent q - 52 \<le> - 1" by simp
      moreover have "q = of_int j * 2 powi (- 1)" by (simp add: j power_int_minus)
      ultimately show ?thesis by (rule round_to_double_exact [rotated])
    qed
    then show ?thesis by simp
  next
    case False
    have "q \<noteq> of_int 0 / 2" using False by blast
    then have nz: "q \<noteq> 0" by simp
    have lo: "of_int k - 1 / 2 + d \<le> q"
    proof -
      have "q \<noteq> of_int (2 * k - 1) / 2" using False by blast
      moreover have "of_int k - 1 / 2 = (of_int (2 * k - 1) :: rat) / 2"
        by (simp add: diff_divide_distrib)
      moreover have "of_int k - 1 / 2 \<le> q" unfolding k_def by (rule std_round_bounds)
      ultimately have "of_int (2 * k - 1) / 2 < q" by simp
      then have "of_int (2 * k - 1) / 2 * T < q * T"
        using T by (intro mult_strict_right_mono) simp_all
      moreover have "of_int (2 * k - 1) / 2 * T = of_int ((2 * k - 1) * S2)"
        by (simp add: T_def)
      ultimately have "(of_int ((2 * k - 1) * S2) :: rat) < of_int p" by (simp only: qT)
      then have "(2 * k - 1) * S2 < p" by (simp only: of_int_less_iff)
      then have "(2 * k - 1) * S2 + 1 \<le> p" by simp
      then have "(of_int ((2 * k - 1) * S2 + 1) :: rat) \<le> of_int p"
        by (simp only: of_int_le_iff)
      then have "(of_int ((2 * k - 1) * S2 + 1) :: rat) / T \<le> of_int p / T"
        using T by (intro divide_right_mono) simp_all
      moreover have "(of_int ((2 * k - 1) * S2 + 1) :: rat) / T = of_int k - 1 / 2 + d"
        using S2 by (simp add: T_def d_def field_simps)
      ultimately show ?thesis by (simp add: q_def)
    qed
    have hi: "q \<le> of_int k + 1 / 2 - d"
    proof -
      have "q \<noteq> of_int (2 * k + 1) / 2" using False by blast
      moreover have "of_int k + 1 / 2 = (of_int (2 * k + 1) :: rat) / 2"
        by (simp add: add_divide_distrib)
      moreover have "q \<le> of_int k + 1 / 2" unfolding k_def by (rule std_round_bounds)
      ultimately have "q < of_int (2 * k + 1) / 2" by simp
      then have "q * T < of_int (2 * k + 1) / 2 * T"
        using T by (intro mult_strict_right_mono) simp_all
      moreover have "of_int (2 * k + 1) / 2 * T = of_int ((2 * k + 1) * S2)"
        by (simp add: T_def)
      ultimately have "(of_int p :: rat) < of_int ((2 * k + 1) * S2)" by (simp only: qT)
      then have "p < (2 * k + 1) * S2" by (simp only: of_int_less_iff)
      then have "p \<le> (2 * k + 1) * S2 - 1" by simp
      then have "(of_int p :: rat) \<le> of_int ((2 * k + 1) * S2 - 1)"
        by (simp only: of_int_le_iff)
      then have "(of_int p :: rat) / T \<le> of_int ((2 * k + 1) * S2 - 1) / T"
        using T by (intro divide_right_mono) simp_all
      moreover have "(of_int ((2 * k + 1) * S2 - 1) :: rat) / T = of_int k + 1 / 2 - d"
        using S2 by (simp add: T_def d_def field_simps)
      ultimately show ?thesis by (simp add: q_def)
    qed
    have err: "\<bar>round_to_double q - q\<bar> \<le> 2 powi (binary_exponent q - 53)"
      using nz by (rule round_to_double_error)
    have "(2::rat) powi (binary_exponent q - 53) = 2 powi (binary_exponent q) / 2 ^ 53"
      by (simp add: power_int_diff)
    also have "\<dots> \<le> \<bar>q\<bar> / 2 ^ 53"
      using binary_exponent_lower [OF nz] by (intro divide_right_mono) simp_all
    also have "\<dots> = (of_int \<bar>p\<bar> / 2 ^ 53) / T"
      using T absq [symmetric] by simp
    also have "\<dots> < 1 / T"
      using T p53 by (intro divide_strict_right_mono) simp_all
    finally have "2 powi (binary_exponent q - 53) < d" by (simp only: d_def)
    with err have "\<bar>round_to_double q - q\<bar> < d" by simp
    with lo hi have "of_int k - 1 / 2 < round_to_double q" "round_to_double q < of_int k + 1 / 2"
      by linarith+
    then have "std_round (round_to_double q) = k" by (rule std_round_near)
    then show ?thesis by (simp only: k_def)
  qed
  then show ?thesis by (simp only: q_def T_def S)
qed


lemma fp_mul_exact:
  assumes "decimals \<le> 18" and "\<bar>a * b\<bar> < (2::int) ^ 53"
  shows "fp_mul decimals a b = Some (std_round (of_int (a * b) / of_int (scale decimals)))"
proof -
  define p where "p = a * b"
  define q :: rat where "q = of_int p / of_int (scale decimals)"
  define k where "k = std_round q"
  have p: "\<bar>p\<bar> < 2 ^ 53" using assms(2) by (simp only: p_def)
  have "fp_mul decimals a b = to_int64 (std_round (round_to_double
      (round_to_double (round_to_double (of_int a) * round_to_double (of_int b))
         / round_to_double (of_int (scale decimals)))))"
    by (simp add: fp_mul_def mul_div_def)
  also have "\<dots> = to_int64 (std_round (round_to_double q))"
    by (simp only: round_to_double_product [OF assms(2)] round_to_double_scale [OF assms(1)]
        q_def p_def)
  finally have res: "fp_mul decimals a b = to_int64 (std_round (round_to_double q))" .
  have rq: "std_round (round_to_double q) = k"
  proof (cases "decimals = 0")
    case True
    then have "q = of_int p" by (simp add: q_def scale_def)
    with p show ?thesis by (simp add: round_to_double_int k_def)
  next
    case False
    then have "1 \<le> decimals" by simp
    from quotient_rounding [OF this assms(1) p] show ?thesis by (simp only: q_def k_def)
  qed
  have S: "(1::rat) \<le> of_int (scale decimals)" by (simp add: scale_def)
  have "\<bar>q\<bar> = of_int \<bar>p\<bar> / of_int (scale decimals)" using S by (simp add: q_def)
  also have "\<dots> \<le> of_int \<bar>p\<bar> / 1" using S by (intro divide_left_mono) simp_all
  finally have "\<bar>q\<bar> \<le> of_int \<bar>p\<bar>" by simp
  moreover from p have "(of_int \<bar>p\<bar> :: rat) < of_int (2 ^ 53)" by (simp only: of_int_less_iff)
  ultimately have q: "\<bar>q\<bar> < 2 ^ 53" by simp
  have "of_int k - 1 / 2 \<le> q" "q \<le> of_int k + 1 / 2"
    unfolding k_def by (rule std_round_bounds)+
  with q have "(of_int k :: rat) < of_int (2 ^ 53 + 1)" "(of_int (- (2 ^ 53) - 1) :: rat) < of_int k"
    by simp_all
  then have "k < 2 ^ 53 + 1" "- (2 ^ 53) - 1 < k" by (simp_all only: of_int_less_iff)
  then have "to_int64 k = Some k" by (simp add: to_int64_def INT64_MAX_def)
  with res rq show ?thesis by (simp add: k_def q_def p_def)
qed

text \<open>\<open>operator/\<close> returns zero for a zero divisor.\<close>

lemma fp_div_zero_divisor: "fp_div decimals a 0 = Some 0"
  by (simp add: fp_div_def)

lemma rounded_product_example:
  "std_round (of_int (12345678 * 87654321) / of_int (scale 8)) = 10821520"
  by code_simp

lemma rounded_quotient_example:
  "std_round (of_int (12345678 * 10 ^ 8) / of_int 87654321) = 14084506"
  by code_simp

text \<open>
  Claim C6 as stated fails for \<open>a = 42150.5\<close> (raw \<open>4215050000000\<close>) and \<open>b = 1.00000013\<close>
  (raw \<open>100000013\<close>) with \<open>D = 8\<close>. The exact product of the raw values is
  \<open>421505054795650000000\<close>, so the exact quotient is \<open>4215050547956.5\<close> and rounds to
  \<open>4215050547957\<close>. The product does not fit a 53-bit significand: the \<open>double\<close> nearest to
  it is smaller, the quotient falls below the half, and \<open>operator*\<close> returns
  \<open>4215050547956\<close>.
\<close>

theorem float_product_counterexample:
  "fp_mul 8 4215050000000 100000013 = Some 4215050547956
   \<and> std_round (of_int (4215050000000 * 100000013) / of_int (scale 8)) = 4215050547957"
  by code_simp

text \<open>
  Claim C6, as the source has it. For \<open>D \<le> 18\<close> decimals (\<open>D = 8\<close> for prices) and raw
  values \<open>a\<close>, \<open>b\<close> whose product is below \<open>2 ^ 53\<close> in absolute value, \<open>operator*\<close> returns
  exactly the quotient \<open>a * b / 10 ^ D\<close> rounded to the nearest integer, halves away from
  zero. \<open>try_divide\<close> is \<open>None\<close> for a zero divisor and otherwise the exactly rounded
  quotient \<open>a * 10 ^ D / b\<close>.
\<close>

theorem multiplication_and_division:
  assumes "decimals \<le> 18" and "\<bar>a * b\<bar> < 2 ^ 53"
  shows "fp_mul decimals a b = Some (std_round (of_int (a * b) / of_int (scale decimals)))
       \<and> try_divide decimals a 0 = None
       \<and> (b \<noteq> 0 \<longrightarrow>
            try_divide decimals a b = Some (std_round (of_int (a * 10 ^ decimals) / of_int b)))"
  using fp_mul_exact [OF assms] by (simp add: try_divide_def)

theorem multiplication_and_division_witness:
  "(8::nat) \<le> 18 \<and> \<bar>12345678 * 87654321 :: int\<bar> < 2 ^ 53
   \<and> fp_mul 8 12345678 87654321 = Some 10821520
   \<and> try_divide 8 12345678 0 = None
   \<and> (87654321::int) \<noteq> 0
   \<and> try_divide 8 12345678 87654321 = Some 14084506"
  using multiplication_and_division [of 8 12345678 87654321]
    rounded_product_example rounded_quotient_example
  by simp

end
